theory Spec2Isabelle
  imports
    Main
    "HOL-Library.Sublist"
    "HOL-Library.AList"
    "HOL-Library.Char_ord"
    "HOL-Library.List_Lexorder"
begin

section \<open>Strings as the source uses them\<close>

text \<open>
  JavaScript strings are modelled as \<^typ>\<open>string\<close>, the bytes of their UTF-8
  encoding; the patterns and separators that the extension searches for are ASCII, for
  which searching the bytes and searching the code units agree. The helpers below are the
  \<^verbatim>\<open>String.prototype\<close> methods the extension calls: \<^verbatim>\<open>includes\<close>,
  \<^verbatim>\<open>endsWith\<close>, \<^verbatim>\<open>slice\<close> with two non-negative indices,
  \<^verbatim>\<open>split\<close> on a one-character separator, \<^verbatim>\<open>replace\<close> with a string
  pattern (first occurrence only) and the removal of every occurrence of one character
  (\<^verbatim>\<open>replace(/c/g, '')\<close>).
\<close>

fun str_includes :: "string \<Rightarrow> string \<Rightarrow> bool" where
  "str_includes [] pat = (pat = [])"
| "str_includes (c # cs) pat = (prefix pat (c # cs) \<or> str_includes cs pat)"

definition endsWith :: "string \<Rightarrow> string \<Rightarrow> bool" where
  "endsWith s suf = suffix suf s"

definition slice :: "string \<Rightarrow> nat \<Rightarrow> nat \<Rightarrow> string" where
  "slice s i j = take (j - i) (drop i s)"

fun split :: "char \<Rightarrow> string \<Rightarrow> string list" where
  "split sep [] = [[]]"
| "split sep (c # cs) =
     (if c = sep then [] # split sep cs
      else (case split sep cs of
              [] \<Rightarrow> [[c]]
            | l # ls \<Rightarrow> (c # l) # ls))"

fun replace_first :: "string \<Rightarrow> string \<Rightarrow> string \<Rightarrow> string" where
  "replace_first [] pat rep = (if pat = [] then rep else [])"
| "replace_first (c # cs) pat rep =
     (if prefix pat (c # cs) then rep @ drop (length pat) (c # cs)
      else c # replace_first cs pat rep)"

definition remove_all :: "char \<Rightarrow> string \<Rightarrow> string" where
  "remove_all c s = filter (\<lambda>x. x \<noteq> c) s"

definition newline :: char where
  "newline = CHR 0x0A"

section \<open>Dates\<close>

text \<open>
  A JavaScript \<^verbatim>\<open>Date\<close> holds a time value, the milliseconds since the epoch
  (an integer of magnitude at most 8.64e15), or is the Invalid Date. \<^verbatim>\<open>Day\<close> and
  \<^verbatim>\<open>TimeWithinDay\<close> are the abstract operations of the language standard; the
  proleptic Gregorian calendar date of a day number is computed era by era (400 years,
  146097 days), with the year counted from 1 March.
\<close>

datatype Date = TimeValue int | InvalidDate

datatype js_error =
  RangeError | SyntaxError | ENOENT | EACCES | ENOTDIR | EISDIR | EEXIST | ELOOP

definition msPerDay :: int where
  "msPerDay = 86400000"

definition Day :: "int \<Rightarrow> int" where
  "Day t = t div msPerDay"

definition TimeWithinDay :: "int \<Rightarrow> int" where
  "TimeWithinDay t = t mod msPerDay"

definition TimeClip :: "int \<Rightarrow> Date" where
  "TimeClip t = (if \<bar>t\<bar> \<le> 8640000000000000 then TimeValue t else InvalidDate)"

text \<open>
  The year of a 400-year era and the day of that year, for a day of the era: centuries
  of 36524 days, cycles of 1461 days, years of 365 days, the last of each one day longer.
\<close>

definition year_of_era :: "int \<Rightarrow> int \<times> int" where
  "year_of_era doe =
     (let c = min 3 (doe div 36524);
          r1 = doe - 36524 * c;
          q = r1 div 1461;
          r2 = r1 mod 1461;
          yq = min 3 (r2 div 365)
      in (100 * c + 4 * q + yq, r2 - 365 * yq))"

text \<open>The month (1 to 12) and the day of the month, for a day of the year from 1 March.\<close>

definition month_of_year :: "int \<Rightarrow> int \<times> int" where
  "month_of_year doy =
     (let mp = (5 * doy + 2) div 153
      in (if mp < 10 then mp + 3 else mp - 9, doy - (153 * mp + 2) div 5 + 1))"

definition civil_from_days :: "int \<Rightarrow> int \<times> int \<times> int" where
  "civil_from_days d =
     (let z = d + 719468;
          era = z div 146097;
          (yoe, doy) = year_of_era (z mod 146097);
          (m, dd) = month_of_year doy
      in (yoe + era * 400 + (if m \<le> 2 then 1 else 0), m, dd))"

definition days_from_civil :: "int \<Rightarrow> int \<Rightarrow> int \<Rightarrow> int" where
  "days_from_civil y m d =
     (let y' = (if m \<le> 2 then y - 1 else y);
          era = y' div 400;
          yoe = y' mod 400;
          doy = (153 * (if m > 2 then m - 3 else m + 9) + 2) div 5 + d - 1;
          doe = yoe * 365 + yoe div 4 - yoe div 100 + doy
      in era * 146097 + doe - 719468)"

definition digit_char :: "nat \<Rightarrow> char" where
  "digit_char d = ''0123456789'' ! (d mod 10)"

definition digit_val :: "char \<Rightarrow> nat option" where
  "digit_val c = map_of (zip ''0123456789'' [0, 1, 2, 3, 4, 5, 6, 7, 8, 9]) c"

text \<open>\<open>pad w n\<close>: the last \<open>w\<close> decimal digits of \<open>n\<close>, zero-padded.\<close>

fun pad :: "nat \<Rightarrow> nat \<Rightarrow> string" where
  "pad 0 n = []"
| "pad (Suc w) n = pad w (n div 10) @ [digit_char n]"

fun parse_digits :: "nat \<Rightarrow> string \<Rightarrow> nat option" where
  "parse_digits acc [] = Some acc"
| "parse_digits acc (c # cs) =
     (case digit_val c of None \<Rightarrow> None | Some d \<Rightarrow> parse_digits (10 * acc + d) cs)"

text \<open>
  \<^verbatim>\<open>Date.prototype.toISOString\<close>: \<^verbatim>\<open>YYYY-MM-DDTHH:mm:ss.sssZ\<close> in UTC, the year
  with a sign and six digits outside 0..9999; a RangeError on the Invalid Date.
\<close>

definition iso_string :: "int \<Rightarrow> string" where
  "iso_string t =
     (let (y, m, d) = civil_from_days (Day t);
          tod = TimeWithinDay t;
          year = (if 0 \<le> y \<and> y \<le> 9999 then pad 4 (nat y)
                  else (if y < 0 then ''-'' else ''+'') @ pad 6 (nat \<bar>y\<bar>))
      in year @ ''-'' @ pad 2 (nat m) @ ''-'' @ pad 2 (nat d) @ ''T''
           @ pad 2 (nat (tod div 3600000)) @ '':''
           @ pad 2 (nat (tod div 60000 mod 60)) @ '':''
           @ pad 2 (nat (tod div 1000 mod 60)) @ ''.''
           @ pad 3 (nat (tod mod 1000)) @ ''Z'')"

definition toISOString :: "Date \<Rightarrow> js_error + string" where
  "toISOString d = (case d of InvalidDate \<Rightarrow> Inl RangeError | TimeValue t \<Rightarrow> Inr (iso_string t))"

text \<open>
  \<^verbatim>\<open>Date.prototype.toTimeString\<close>: the local time of day followed by the zone,
  \<^verbatim>\<open>HH:MM:SS GMT+hhmm\<close>; \<open>tz\<close> is the offset of local time from UTC in minutes
  at that instant. The zone name that engines append in parentheses is left out.
\<close>

definition toTimeString :: "int \<Rightarrow> int \<Rightarrow> string" where
  "toTimeString t tz =
     (let tod = TimeWithinDay (t + tz * 60000)
      in pad 2 (nat (tod div 3600000)) @ '':''
           @ pad 2 (nat (tod div 60000 mod 60)) @ '':''
           @ pad 2 (nat (tod div 1000 mod 60))
           @ '' GMT'' @ (if tz < 0 then ''-'' else ''+'')
           @ pad 2 (nat (\<bar>tz\<bar> div 60)) @ pad 2 (nat (\<bar>tz\<bar> mod 60)))"

text \<open>
  \<^verbatim>\<open>new Date(string)\<close> on the date-time format that \<^verbatim>\<open>toISOString\<close> writes;
  \<open>sg\<close> and \<open>w\<close> are the sign and the width of the year. A string of another form
  gives the Invalid Date here (an engine may accept further formats).
\<close>

definition parse_iso :: "int \<Rightarrow> nat \<Rightarrow> string \<Rightarrow> Date" where
  "parse_iso sg w s =
     (if length s = w + 20
         \<and> slice s w (w + 1) = ''-'' \<and> slice s (w + 3) (w + 4) = ''-''
         \<and> slice s (w + 6) (w + 7) = ''T'' \<and> slice s (w + 9) (w + 10) = '':''
         \<and> slice s (w + 12) (w + 13) = '':'' \<and> slice s (w + 15) (w + 16) = ''.''
         \<and> slice s (w + 19) (w + 20) = ''Z''
      then (case those [parse_digits 0 (slice s 0 w),
                        parse_digits 0 (slice s (w + 1) (w + 3)),
                        parse_digits 0 (slice s (w + 4) (w + 6)),
                        parse_digits 0 (slice s (w + 7) (w + 9)),
                        parse_digits 0 (slice s (w + 10) (w + 12)),
                        parse_digits 0 (slice s (w + 13) (w + 15)),
                        parse_digits 0 (slice s (w + 16) (w + 19))] of
              Some [y, mo, d, h, mi, sec, ms] \<Rightarrow>
                if 1 \<le> mo \<and> mo \<le> 12 \<and> 1 \<le> d \<and> d \<le> 31 \<and> h \<le> 23 \<and> mi \<le> 59 \<and> sec \<le> 59
                   \<and> \<not> (sg < 0 \<and> y = 0)
                then TimeClip (days_from_civil (sg * int y) (int mo) (int d) * msPerDay
                                + int h * 3600000 + int mi * 60000 + int sec * 1000 + int ms)
                else InvalidDate
            | _ \<Rightarrow> InvalidDate)
      else InvalidDate)"

definition newDate :: "string \<Rightarrow> Date" where
  "newDate s =
     (case s of
        [] \<Rightarrow> InvalidDate
      | c # r \<Rightarrow>
          if c = CHR ''+'' then parse_iso 1 6 r
          else if c = CHR ''-'' then parse_iso (- 1) 6 r
          else parse_iso 1 4 s)"

section \<open>Data model (types.ts)\<close>

record FileSnapshot =
  path :: string
  content :: string
  size' :: nat

datatype SnapshotTrigger = file_save | file_create | file_delete | manual | auto

record Snapshot =
  id' :: string
  timestamp :: Date
  trigger :: SnapshotTrigger
  files :: "FileSnapshot list"
  gitCommit :: "string option"

record StoredSnapshot =
  stored_id :: string
  stored_timestamp :: string
  stored_trigger :: SnapshotTrigger
  stored_files :: "FileSnapshot list"
  stored_gitCommit :: "string option"

section \<open>The file system\<close>

text \<open>
  The file system is a tree of names over a table of files. A directory holds its entries
  in \<^verbatim>\<open>readdir\<close> order, with whether it can be listed and whether entries can be
  added to it. A regular file is an entry that names an index node of the table; two
  entries that name the same index node are hard links to one file. A symbolic link holds
  the absolute path it points to (a relative target is written as the path it denotes
  from the link's own directory). An entry that is none of these (a socket, a FIFO)
  cannot be opened. An index node holds the bytes of the file and whether they can be
  read and written. A path is the list of its components from the root. Only POSIX paths
  are modelled, and names are compared byte by byte, as a case-sensitive file system
  does.

  A string of the model is a list of bytes. Where it is the text of a JavaScript string
  it holds the UTF-8 encoding of that string; strings with unpaired surrogates have no
  counterpart.

  The snapshots directory \<^verbatim>\<open>.hindsight/snapshots\<close> is kept apart from the tree, as
  the files it holds by name; the tree holds everything else. The text of a snapshot file
  is modelled by what \<^verbatim>\<open>JSON.parse\<close> makes of it: the record that
  \<^verbatim>\<open>JSON.stringify\<close> wrote, or text that does not parse. The flags of a \<open>world\<close>
  say whether the snapshots directory can be listed and written, and its \<open>trace\<close>
  lists, in order, the writes and directory creations that have taken effect, each with
  the path that the call was given.
\<close>

datatype node =
  File nat | Dir bool bool "(string \<times> node) list" | Link "string list" | Special

record inode =
  readable :: bool
  writable :: bool
  bytes :: string

datatype disk_text = Serialized StoredSnapshot | Corrupt string

datatype event = StoreWrite string | FsMkdir "string list" | FsWrite "string list"

record world =
  root :: node
  inodes :: "(nat \<times> inode) list"
  store :: "(string \<times> disk_text) list"
  store_listable :: bool
  store_writable :: bool
  trace :: "event list"

subsection \<open>Decoding UTF-8\<close>

text \<open>
  Reading a file with the encoding \<^verbatim>\<open>'utf8'\<close> decodes its bytes and puts U+FFFD in
  the place of every maximal ill-formed part (the decoder of the Encoding standard). The
  result is given in UTF-8 again: well-formed sequences are kept, and the three bytes of
  U+FFFD stand where the file has bytes that are not UTF-8.
\<close>

definition replacement :: string where
  "replacement = [CHR 0xEF, CHR 0xBF, CHR 0xBD]"

definition in_range :: "nat \<Rightarrow> nat \<Rightarrow> char \<Rightarrow> bool" where
  "in_range lo hi c = (lo \<le> of_char c \<and> (of_char c :: nat) \<le> hi)"

text \<open>
  For a lead byte: how many continuation bytes follow, and the bounds of the first one.
\<close>

definition lead :: "nat \<Rightarrow> (nat \<times> nat \<times> nat) option" where
  "lead n =
     (if 0xC2 \<le> n \<and> n \<le> 0xDF then Some (1, 0x80, 0xBF)
      else if n = 0xE0 then Some (2, 0xA0, 0xBF)
      else if n = 0xED then Some (2, 0x80, 0x9F)
      else if 0xE1 \<le> n \<and> n \<le> 0xEF then Some (2, 0x80, 0xBF)
      else if n = 0xF0 then Some (3, 0x90, 0xBF)
      else if n = 0xF4 then Some (3, 0x80, 0x8F)
      else if 0xF1 \<le> n \<and> n \<le> 0xF3 then Some (3, 0x80, 0xBF)
      else None)"

text \<open>How many of the \<open>n\<close> continuation bytes that a lead byte asks for are there.\<close>

fun continuation :: "nat \<Rightarrow> nat \<Rightarrow> nat \<Rightarrow> string \<Rightarrow> nat" where
  "continuation 0 lo hi bs = 0"
| "continuation (Suc n) lo hi [] = 0"
| "continuation (Suc n) lo hi (c # bs) =
     (if in_range lo hi c then Suc (continuation n 0x80 0xBF bs) else 0)"

function utf8_decode :: "string \<Rightarrow> string" where
  "utf8_decode [] = []"
| "utf8_decode (b # bs) =
     (if (of_char b :: nat) < 0x80 then b # utf8_decode bs
      else (case lead (of_char b) of
              None \<Rightarrow> replacement @ utf8_decode bs
            | Some (need, lo, hi) \<Rightarrow>
                (if continuation need lo hi bs = need
                 then b # take need bs @ utf8_decode (drop need bs)
                 else replacement @ utf8_decode (drop (continuation need lo hi bs) bs))))"
  by pat_completeness auto
termination
  by (relation "measure length") auto

subsection \<open>Names\<close>

fun child :: "node \<Rightarrow> string \<Rightarrow> node option" where
  "child (Dir l wr es) c = map_of es c"
| "child (File i) c = None"
| "child (Link t) c = None"
| "child Special c = None"

text \<open>The entry at a path, no symbolic link followed.\<close>

fun lookup :: "node \<Rightarrow> string list \<Rightarrow> node option" where
  "lookup n [] = Some n"
| "lookup n (c # cs) = (case child n c of None \<Rightarrow> None | Some ch \<Rightarrow> lookup ch cs)"

text \<open>
  Path resolution, as the system calls do it: the components are followed from the
  directory \<open>acc\<close>, which no link leads through; at a symbolic link the walk starts again
  at the link's target, at most \<open>k\<close> times. The result is the path without links of the
  entry that the path leads to, or of the place where it would be if it is not there.
\<close>

fun resolve :: "nat \<Rightarrow> node \<Rightarrow> string list \<Rightarrow> string list \<Rightarrow> js_error + string list" where
  "resolve k r acc [] = Inr acc"
| "resolve k r acc (c # cs) =
     (case lookup r (acc @ [c]) of
        Some (Link t) \<Rightarrow> if k = 0 then Inl ELOOP else resolve (k - 1) r [] (t @ cs)
      | Some (Dir l wr es) \<Rightarrow> resolve k r (acc @ [c]) cs
      | _ \<Rightarrow> Inr (acc @ c # cs))"

definition realpath :: "node \<Rightarrow> string list \<Rightarrow> js_error + string list" where
  "realpath r p = resolve 40 r [] p"

text \<open>What a path leads to, links followed: the entry, and the index node of a file.\<close>

definition node_at :: "node \<Rightarrow> string list \<Rightarrow> node option" where
  "node_at r p = (case realpath r p of Inl e \<Rightarrow> None | Inr q \<Rightarrow> lookup r q)"

definition inode_at :: "node \<Rightarrow> string list \<Rightarrow> nat option" where
  "inode_at r p = (case node_at r p of Some (File i) \<Rightarrow> Some i | _ \<Rightarrow> None)"

text \<open>A new entry \<open>c\<close> in the directory at the path \<open>d\<close>, which no link leads through.\<close>

fun add_entry :: "string list \<Rightarrow> string \<Rightarrow> node \<Rightarrow> node \<Rightarrow> js_error + node" where
  "add_entry [] c new n =
     (case n of
        Dir l wr es \<Rightarrow>
          if map_of es c \<noteq> None then Inl EEXIST
          else if \<not> wr then Inl EACCES
          else Inr (Dir l wr (es @ [(c, new)]))
      | _ \<Rightarrow> Inl ENOTDIR)"
| "add_entry (x # d) c new n =
     (case n of
        Dir l wr es \<Rightarrow>
          (case map_of es x of
             None \<Rightarrow> Inl ENOENT
           | Some ch \<Rightarrow>
               (case add_entry d c new ch of
                  Inl e \<Rightarrow> Inl e
                | Inr ch' \<Rightarrow> Inr (Dir l wr (AList.update x ch' es))))
      | _ \<Rightarrow> Inl ENOTDIR)"

text \<open>
  \<^verbatim>\<open>mkdir\<close> with \<^verbatim>\<open>recursive: true\<close>, from the directory \<open>d\<close>: a directory that is
  there is entered, also through a symbolic link; a missing one is made; anything else
  in the way is an error.
\<close>

fun mkdirs :: "node \<Rightarrow> string list \<Rightarrow> string list \<Rightarrow> js_error + node" where
  "mkdirs r d [] = Inr r"
| "mkdirs r d (c # cs) =
     (case lookup r (d @ [c]) of
        None \<Rightarrow>
          (case add_entry d c (Dir True True []) r of
             Inl e \<Rightarrow> Inl e
           | Inr r' \<Rightarrow> mkdirs r' (d @ [c]) cs)
      | Some (Dir l wr es) \<Rightarrow> mkdirs r (d @ [c]) cs
      | Some (Link t) \<Rightarrow>
          (case realpath r (d @ [c]) of
             Inl e \<Rightarrow> Inl e
           | Inr d' \<Rightarrow>
               (case lookup r d' of
                  Some (Dir l wr es) \<Rightarrow> mkdirs r d' cs
                | Some other \<Rightarrow> Inl (if cs = [] then EEXIST else ENOTDIR)
                | None \<Rightarrow> Inl (if cs = [] then EEXIST else ENOENT)))
      | Some other \<Rightarrow> Inl (if cs = [] then EEXIST else ENOTDIR))"

definition fresh_inode :: "(nat \<times> inode) list \<Rightarrow> nat" where
  "fresh_inode tab = Suc (fold max (map fst tab) 0)"

definition existsSync :: "string list \<Rightarrow> world \<Rightarrow> bool" where
  "existsSync p w = (node_at (root w) p \<noteq> None)"

definition mkdirSync :: "string list \<Rightarrow> world \<Rightarrow> js_error + world" where
  "mkdirSync p w =
     (case mkdirs (root w) [] p of
        Inl e \<Rightarrow> Inl e
      | Inr n \<Rightarrow> Inr (w\<lparr>root := n, trace := trace w @ [FsMkdir p]\<rparr>))"

text \<open>
  \<^verbatim>\<open>fs.promises.writeFile(p, text, 'utf8')\<close> opens with the flag \<^verbatim>\<open>'w'\<close>: symbolic
  links are followed, the file that the path leads to is truncated and written if it may
  be written, and a file that is not there is created in its directory, which must exist.
\<close>

definition writeFile :: "string list \<Rightarrow> string \<Rightarrow> world \<Rightarrow> js_error + world" where
  "writeFile p text w =
     (case realpath (root w) p of
        Inl e \<Rightarrow> Inl e
      | Inr q \<Rightarrow>
          (case lookup (root w) q of
             Some (File i) \<Rightarrow>
               (case map_of (inodes w) i of
                  None \<Rightarrow> Inl ENOENT
                | Some ino \<Rightarrow>
                    if writable ino
                    then Inr (w\<lparr>inodes := AList.update i (ino\<lparr>bytes := text\<rparr>) (inodes w),
                                trace := trace w @ [FsWrite p]\<rparr>)
                    else Inl EACCES)
           | Some (Dir l wr es) \<Rightarrow> Inl EISDIR
           | Some (Link t) \<Rightarrow> Inl ELOOP
           | Some Special \<Rightarrow> Inl EACCES
           | None \<Rightarrow>
               (case add_entry (butlast q) (last q) (File (fresh_inode (inodes w))) (root w) of
                  Inl e \<Rightarrow> Inl e
                | Inr n \<Rightarrow>
                    Inr (w\<lparr>root := n,
                           inodes := inodes w @
                             [(fresh_inode (inodes w),
                               \<lparr>readable = True, writable = True, bytes = text\<rparr>)],
                           trace := trace w @ [FsWrite p]\<rparr>))))"

text \<open>\<^verbatim>\<open>fs.promises.readFile(p, 'utf8')\<close>.\<close>

definition readFile :: "string list \<Rightarrow> world \<Rightarrow> js_error + string" where
  "readFile p w =
     (case node_at (root w) p of
        None \<Rightarrow> Inl ENOENT
      | Some (File i) \<Rightarrow>
          (case map_of (inodes w) i of
             None \<Rightarrow> Inl ENOENT
           | Some ino \<Rightarrow> if readable ino then Inr (utf8_decode (bytes ino)) else Inl EACCES)
      | Some (Dir l wr es) \<Rightarrow> Inl EISDIR
      | Some (Link t) \<Rightarrow> Inl ELOOP
      | Some Special \<Rightarrow> Inl EACCES)"

text \<open>\<^verbatim>\<open>stat(p).size\<close>: the number of bytes of a regular file.\<close>

definition stat_size :: "string list \<Rightarrow> world \<Rightarrow> js_error + nat" where
  "stat_size p w =
     (case node_at (root w) p of
        None \<Rightarrow> Inl ENOENT
      | Some (File i) \<Rightarrow>
          (case map_of (inodes w) i of
             None \<Rightarrow> Inl ENOENT
           | Some ino \<Rightarrow> Inr (length (bytes ino)))
      | Some other \<Rightarrow> Inr 0)"

subsection \<open>The snapshots directory\<close>

text \<open>
  A snapshot file is named by its identifier and \<^verbatim>\<open>.json\<close>. Identifiers are taken
  to be plain file names, as \<^verbatim>\<open>generateSnapshotId\<close> makes them: the file of an
  identifier with a path separator in it would lie elsewhere, and is outside the model,
  as is a workspace path that leads into the snapshots directory.
\<close>

definition store_readFile :: "string \<Rightarrow> world \<Rightarrow> js_error + disk_text" where
  "store_readFile name w =
     (case map_of (store w) name of None \<Rightarrow> Inl ENOENT | Some t \<Rightarrow> Inr t)"

definition store_writeFile :: "string \<Rightarrow> disk_text \<Rightarrow> world \<Rightarrow> js_error + world" where
  "store_writeFile name t w =
     (if store_writable w
      then Inr (w\<lparr>store := AList.update name t (store w), trace := trace w @ [StoreWrite name]\<rparr>)
      else Inl EACCES)"

definition store_readdir :: "world \<Rightarrow> js_error + string list" where
  "store_readdir w = (if store_listable w then Inr (map fst (store w)) else Inl EACCES)"

definition JSON_stringify :: "StoredSnapshot \<Rightarrow> disk_text" where
  "JSON_stringify stored = Serialized stored"

definition JSON_parse :: "disk_text \<Rightarrow> js_error + StoredSnapshot" where
  "JSON_parse t = (case t of Serialized stored \<Rightarrow> Inr stored | Corrupt s \<Rightarrow> Inl SyntaxError)"

text \<open>\<^verbatim>\<open>error.message\<close>, as far as the extension shows it.\<close>

fun message :: "js_error \<Rightarrow> string" where
  "message RangeError = ''Invalid time value''"
| "message SyntaxError = ''Unexpected token in JSON''"
| "message ENOENT = ''ENOENT: no such file or directory''"
| "message EACCES = ''EACCES: permission denied''"
| "message ENOTDIR = ''ENOTDIR: not a directory''"
| "message EISDIR = ''EISDIR: illegal operation on a directory''"
| "message EEXIST = ''EEXIST: file already exists''"
| "message ELOOP = ''ELOOP: too many symbolic links encountered''"

subsection \<open>Paths\<close>

text \<open>
  \<^verbatim>\<open>path.join(base, rel)\<close> for a normalised absolute \<open>base\<close>: the components of
  \<open>rel\<close> are followed from \<open>base\<close>, empty ones and \<^verbatim>\<open>.\<close> skipped, \<^verbatim>\<open>..\<close>
  going up (the root is its own parent). \<^verbatim>\<open>path.relative(base, full)\<close> for a path
  below \<open>base\<close> joins the remaining components with the separator.
\<close>

definition path_step :: "string list \<Rightarrow> string \<Rightarrow> string list" where
  "path_step acc c =
     (if c = [] \<or> c = ''.'' then acc else if c = ''..'' then butlast acc else acc @ [c])"

definition path_join :: "string list \<Rightarrow> string \<Rightarrow> string list" where
  "path_join base rel = foldl path_step base (split CHR ''/'' rel)"

definition dirname :: "string list \<Rightarrow> string list" where
  "dirname p = butlast p"

fun join_path :: "string list \<Rightarrow> string" where
  "join_path [] = []"
| "join_path [c] = c"
| "join_path (c # d # cs) = c @ ''/'' @ join_path (d # cs)"

definition path_relative :: "string list \<Rightarrow> string list \<Rightarrow> string" where
  "path_relative base full = join_path (drop (length base) full)"

section \<open>SnapshotManager\<close>

text \<open>
  What an operation reads from its surroundings: the clock when the identifier is
  generated, the offset of local time, the string \<^verbatim>\<open>Math.random().toString(16)\<close>,
  and the clock when the snapshot object is built.
\<close>

record Env =
  clock :: int
  tz_offset :: int
  random16 :: string
  clock2 :: int

record RestoreResult =
  success :: bool
  backupId :: "string option"
  error :: "string option"

definition generateSnapshotId :: "Env \<Rightarrow> string" where
  "generateSnapshotId env =
     (let date = remove_all CHR ''-'' (slice (iso_string (clock env)) 0 10);
          time = remove_all CHR '':'' (slice (toTimeString (clock env) (tz_offset env)) 0 8);
          random = slice (random16 env) 2 8
      in ''snapshot_'' @ date @ ''_'' @ time @ ''_'' @ random)"

definition saveSnapshot :: "Snapshot \<Rightarrow> world \<Rightarrow> js_error + world" where
  "saveSnapshot snapshot w =
     (case toISOString (timestamp snapshot) of
        Inl e \<Rightarrow> Inl e
      | Inr isoString \<Rightarrow>
          let storedSnapshot =
                \<lparr>stored_id = id' snapshot,
                 stored_timestamp = isoString,
                 stored_trigger = trigger snapshot,
                 stored_files = files snapshot,
                 stored_gitCommit = gitCommit snapshot\<rparr>;
              filename = id' snapshot @ ''.json''
          in store_writeFile filename (JSON_stringify storedSnapshot) w)"

definition createSnapshot ::
  "Env \<Rightarrow> string list \<Rightarrow> string list \<Rightarrow> SnapshotTrigger \<Rightarrow> world \<Rightarrow> Snapshot option \<times> world" where
  "createSnapshot env ws filePath trig w =
     (case readFile filePath w of
        Inl e \<Rightarrow> (None, w)
      | Inr text \<Rightarrow>
          (case stat_size filePath w of
             Inl e \<Rightarrow> (None, w)
           | Inr n \<Rightarrow>
               let relativePath = path_relative ws filePath;
                   fileSnapshot = \<lparr>path = relativePath, content = text, size' = n\<rparr>;
                   ident = generateSnapshotId env;
                   snapshot =
                     \<lparr>id' = ident,
                      timestamp = TimeValue (clock2 env),
                      trigger = trig,
                      files = [fileSnapshot],
                      gitCommit = None\<rparr>
               in (case saveSnapshot snapshot w of
                     Inl e \<Rightarrow> (None, w)
                   | Inr w' \<Rightarrow> (Some snapshot, w'))))"

text \<open>The \<^verbatim>\<open>try\<close> block of \<^verbatim>\<open>loadSnapshot\<close>, and the function with its \<^verbatim>\<open>catch\<close>.\<close>

definition loadSnapshot_try :: "string \<Rightarrow> world \<Rightarrow> js_error + Snapshot" where
  "loadSnapshot_try ident w =
     (case store_readFile (ident @ ''.json'') w of
        Inl e \<Rightarrow> Inl e
      | Inr text \<Rightarrow>
          (case JSON_parse text of
             Inl e \<Rightarrow> Inl e
           | Inr stored \<Rightarrow>
               Inr \<lparr>id' = stored_id stored,
                    timestamp = newDate (stored_timestamp stored),
                    trigger = stored_trigger stored,
                    files = stored_files stored,
                    gitCommit = stored_gitCommit stored\<rparr>))"

definition loadSnapshot :: "string \<Rightarrow> world \<Rightarrow> js_error + Snapshot option" where
  "loadSnapshot ident w =
     (case loadSnapshot_try ident w of Inl e \<Rightarrow> Inr None | Inr snapshot \<Rightarrow> Inr (Some snapshot))"

definition getAllSnapshotIds :: "world \<Rightarrow> string list" where
  "getAllSnapshotIds w =
     (case store_readdir w of
        Inl e \<Rightarrow> []
      | Inr fs \<Rightarrow>
          let snapshotIds =
                map (\<lambda>f. replace_first f ''.json'' []) (filter (\<lambda>f. endsWith f ''.json'') fs)
          in rev (sort snapshotIds))"

definition backup_ignorePatterns :: "string list" where
  "backup_ignorePatterns =
     [''node_modules'', ''.git'', ''dist'', ''build'', ''out'', ''.vscode'', ''.hindsight'']"

definition backup_ignored :: "string \<Rightarrow> bool" where
  "backup_ignored relativePath =
     list_ex (\<lambda>pattern. str_includes relativePath pattern) backup_ignorePatterns"

fun walkDir :: "string list \<Rightarrow> string list \<Rightarrow> node \<Rightarrow> js_error + string list list"
  and walkEntries ::
    "string list \<Rightarrow> string list \<Rightarrow> (string \<times> node) list \<Rightarrow> js_error + string list list"
  where
  "walkDir ws dir (Dir l wr es) = (if l then walkEntries ws dir es else Inl EACCES)"
| "walkDir ws dir (File i) = Inl ENOTDIR"
| "walkDir ws dir (Link t) = Inl ENOTDIR"
| "walkDir ws dir Special = Inl ENOTDIR"
| "walkEntries ws dir [] = Inr []"
| "walkEntries ws dir ((name, n) # es) =
     (let fullPath = dir @ [name];
          relativePath = path_relative ws fullPath
      in if backup_ignored relativePath then walkEntries ws dir es
         else (case n of
                 Dir l wr sub \<Rightarrow>
                   (case walkDir ws fullPath n of
                      Inl e \<Rightarrow> Inl e
                    | Inr fs \<Rightarrow>
                        (case walkEntries ws dir es of
                           Inl e \<Rightarrow> Inl e
                         | Inr gs \<Rightarrow> Inr (fs @ gs)))
               | File i \<Rightarrow>
                   (case walkEntries ws dir es of
                      Inl e \<Rightarrow> Inl e
                    | Inr gs \<Rightarrow> Inr (fullPath # gs))
               | Link t \<Rightarrow> walkEntries ws dir es
               | Special \<Rightarrow> walkEntries ws dir es))"

definition getAllWorkspaceFiles :: "string list \<Rightarrow> world \<Rightarrow> js_error + string list list" where
  "getAllWorkspaceFiles ws w =
     (case node_at (root w) ws of
        None \<Rightarrow> Inl ENOENT
      | Some n \<Rightarrow> walkDir ws ws n)"

text \<open>One round of the backup loop: \<open>None\<close> when the \<^verbatim>\<open>catch\<close> skips the file.\<close>

definition backupFile :: "string list \<Rightarrow> world \<Rightarrow> string list \<Rightarrow> FileSnapshot option" where
  "backupFile ws w filePath =
     (case readFile filePath w of
        Inl e \<Rightarrow> None
      | Inr text \<Rightarrow>
          (case stat_size filePath w of
             Inl e \<Rightarrow> None
           | Inr n \<Rightarrow> Some \<lparr>path = path_relative ws filePath, content = text, size' = n\<rparr>))"

definition createBackupBeforeRestore ::
  "Env \<Rightarrow> string list \<Rightarrow> world \<Rightarrow> js_error + (string \<times> world)" where
  "createBackupBeforeRestore env ws w =
     (let backupId = ''backup_'' @ generateSnapshotId env
      in case getAllWorkspaceFiles ws w of
           Inl e \<Rightarrow> Inl e
         | Inr allFiles \<Rightarrow>
             let fileSnapshots = List.map_filter (backupFile ws w) allFiles;
                 backupSnapshot =
                   \<lparr>id' = backupId,
                    timestamp = TimeValue (clock2 env),
                    trigger = manual,
                    files = fileSnapshots,
                    gitCommit = None\<rparr>
             in (case saveSnapshot backupSnapshot w of
                   Inl e \<Rightarrow> Inl e
                 | Inr w' \<Rightarrow> Inr (backupId, w')))"

text \<open>
  One round of the restore loop and the loop: the error thrown, if any, with the state
  the writes so far have left.
\<close>

definition restoreFile :: "string list \<Rightarrow> FileSnapshot \<Rightarrow> world \<Rightarrow> js_error option \<times> world" where
  "restoreFile ws file w =
     (let filePath = path_join ws (path file);
          dir = dirname filePath
      in case (if \<not> existsSync dir w then mkdirSync dir w else Inr w) of
           Inl e \<Rightarrow> (Some e, w)
         | Inr w1 \<Rightarrow>
             if endsWith (path file) ''/'' then (Some EISDIR, w1)
             else (case writeFile filePath (content file) w1 of
                     Inl e \<Rightarrow> (Some e, w1)
                   | Inr w2 \<Rightarrow> (None, w2)))"

fun restoreFiles :: "string list \<Rightarrow> FileSnapshot list \<Rightarrow> world \<Rightarrow> js_error option \<times> world" where
  "restoreFiles ws [] w = (None, w)"
| "restoreFiles ws (file # rest) w =
     (case restoreFile ws file w of
        (Some e, w1) \<Rightarrow> (Some e, w1)
      | (None, w1) \<Rightarrow> restoreFiles ws rest w1)"

definition restoreSnapshot ::
  "Env \<Rightarrow> string list \<Rightarrow> string \<Rightarrow> world \<Rightarrow> RestoreResult \<times> world" where
  "restoreSnapshot env ws snapshotId w =
     (case loadSnapshot snapshotId w of
        Inl e \<Rightarrow> (\<lparr>success = False, backupId = None, error = Some (message e)\<rparr>, w)
      | Inr None \<Rightarrow>
          (\<lparr>success = False, backupId = None, error = Some ''Snapshot not found''\<rparr>, w)
      | Inr (Some snapshot) \<Rightarrow>
          (case createBackupBeforeRestore env ws w of
             Inl e \<Rightarrow> (\<lparr>success = False, backupId = None, error = Some (message e)\<rparr>, w)
           | Inr (bid, w1) \<Rightarrow>
               (case restoreFiles ws (files snapshot) w1 of
                  (Some e, w2) \<Rightarrow>
                    (\<lparr>success = False, backupId = None, error = Some (message e)\<rparr>, w2)
                | (None, w2) \<Rightarrow>
                    (\<lparr>success = True, backupId = Some bid, error = None\<rparr>, w2))))"

section \<open>FileWatcher\<close>

definition ignorePatterns :: "string list" where
  "ignorePatterns =
     [''node_modules'', ''.git'', ''dist'', ''build'', ''out'', ''.vscode'', ''.DS_Store'',
      ''.hindsight'', ''package-lock.json'', ''yarn.lock'']"

definition shouldIgnoreFile :: "string \<Rightarrow> bool" where
  "shouldIgnoreFile relativePath =
     list_ex (\<lambda>pattern. str_includes relativePath pattern) ignorePatterns"

section \<open>DiffViewer: rendering of one change script\<close>

text \<open>
  \<^verbatim>\<open>Diff.Change\<close> of the \<^verbatim>\<open>diff\<close> package: a run of text with two optional
  flags. The line differ itself (\<^verbatim>\<open>Diff.diffLines\<close>) belongs to that package and is
  a parameter of the functions below.
\<close>

record Change =
  "value" :: string
  added :: bool
  removed :: bool

fun escapeChar :: "char \<Rightarrow> string" where
  "escapeChar c =
     (if c = CHR ''&'' then ''&amp;''
      else if c = CHR ''<'' then ''&lt;''
      else if c = CHR ''>'' then ''&gt;''
      else if c = CHR 0x22 then ''&quot;''
      else if c = CHR 0x27 then ''&#039;''
      else [c])"

definition escapeHtml :: "string \<Rightarrow> string" where
  "escapeHtml text = concat (map escapeChar text)"

text \<open>The local \<^verbatim>\<open>lines\<close> of \<^verbatim>\<open>generateDiffHtml\<close>.\<close>

definition part_lines :: "Change \<Rightarrow> string list" where
  "part_lines part = filter (\<lambda>line. line \<noteq> []) (split newline (value part))"

definition diff_line :: "string \<Rightarrow> string \<Rightarrow> string" where
  "diff_line cls line =
     ''<div class='' @ [CHR 0x22] @ ''diff-line '' @ cls @ [CHR 0x22] @ ''>''
       @ escapeHtml line @ ''</div>''"

definition generateDiffHtml :: "Change list \<Rightarrow> string" where
  "generateDiffHtml diffResult =
     concat (map (\<lambda>part.
       let lines = part_lines part in
       if added part then concat (map (diff_line ''diff-added'') lines)
       else if removed part then concat (map (diff_line ''diff-removed'') lines)
       else concat (map (diff_line ''diff-unchanged'') lines)) diffResult)"

text \<open>
  The reading of the specification: the lines of a segment are the fragments of the
  newline split, without the blank fragment that the split leaves after a final newline.
\<close>

definition spec_lines :: "string \<Rightarrow> string list" where
  "spec_lines v =
     (let fragments = split newline v
      in if last fragments = [] then butlast fragments else fragments)"

section \<open>DiffViewer: the files of two snapshots\<close>

text \<open>
  One element of the local \<^verbatim>\<open>diffs\<close> of \<^verbatim>\<open>_getHtmlForDiff\<close>; \<open>None\<close> is
  \<^verbatim>\<open>null\<close>, the file is not in that snapshot.
\<close>

record FileDiff =
  diff_path :: string
  oldContent :: "string option"
  newContent :: "string option"
  diffHtml :: string

text \<open>\<^verbatim>\<open>Set.prototype.add\<close>: a set keeps its elements in the order of first insertion.\<close>

definition set_add :: "string list \<Rightarrow> string \<Rightarrow> string list" where
  "set_add xs x = (if x \<in> set xs then xs else xs @ [x])"

definition allFilePaths :: "Snapshot \<Rightarrow> Snapshot \<Rightarrow> string list" where
  "allFilePaths oldSnapshot newSnapshot =
     foldl set_add (foldl set_add [] (map path (files oldSnapshot))) (map path (files newSnapshot))"

definition computeDiffs ::
  "(string \<Rightarrow> string \<Rightarrow> Change list) \<Rightarrow> Snapshot \<Rightarrow> Snapshot \<Rightarrow> FileDiff list" where
  "computeDiffs diffLines oldSnapshot newSnapshot =
     map (\<lambda>filePath.
            let oldFile = find (\<lambda>f. path f = filePath) (files oldSnapshot);
                newFile = find (\<lambda>f. path f = filePath) (files newSnapshot);
                oldText = (case oldFile of None \<Rightarrow> [] | Some f \<Rightarrow> content f);
                newText = (case newFile of None \<Rightarrow> [] | Some f \<Rightarrow> content f);
                diffResult = diffLines oldText newText
            in \<lparr>diff_path = filePath,
                oldContent = (case oldFile of None \<Rightarrow> None | Some f \<Rightarrow> Some oldText),
                newContent = (case newFile of None \<Rightarrow> None | Some f \<Rightarrow> Some newText),
                diffHtml = generateDiffHtml diffResult\<rparr>)
         (allFilePaths oldSnapshot newSnapshot)"

text \<open>
  The block of one file, without the indentation and the icon of the template; the empty
  string for a file that is in both snapshots with the same text.
\<close>

definition file_block :: "string \<Rightarrow> string \<Rightarrow> string \<Rightarrow> string \<Rightarrow> string" where
  "file_block p status statusLabel html =
     ''<div class=file-diff><div class=file-header>'' @ p
       @ ''<span class=file-status status-'' @ status @ ''>'' @ statusLabel @ ''</span></div>''
       @ ''<div class=diff-content>''
       @ (if html = [] then ''<div class=no-changes>No changes</div>'' else html)
       @ ''</div></div>''"

definition generateFileDiffHtml :: "FileDiff \<Rightarrow> string" where
  "generateFileDiffHtml d =
     (if oldContent d = None then file_block (diff_path d) ''added'' ''ADDED'' (diffHtml d)
      else if newContent d = None then file_block (diff_path d) ''deleted'' ''DELETED'' (diffHtml d)
      else if oldContent d = newContent d then []
      else file_block (diff_path d) ''modified'' ''MODIFIED'' (diffHtml d))"

text \<open>
  The part of the page that \<^verbatim>\<open>_getHtmlForDiff\<close> computes from the files; the style
  sheet and the heading around it are constant text.
\<close>

definition fileDiffsHtml ::
  "(string \<Rightarrow> string \<Rightarrow> Change list) \<Rightarrow> Snapshot \<Rightarrow> Snapshot \<Rightarrow> string" where
  "fileDiffsHtml diffLines oldSnapshot newSnapshot =
     concat (map generateFileDiffHtml (computeDiffs diffLines oldSnapshot newSnapshot))"

text \<open>
  A path is unchanged between two snapshots when both have a file at it (the first of
  that path, as \<^verbatim>\<open>Array.prototype.find\<close> returns it) and the two texts are equal.
\<close>

definition same_in_both :: "Snapshot \<Rightarrow> Snapshot \<Rightarrow> string \<Rightarrow> bool" where
  "same_in_both old new p =
     (case (find (\<lambda>f. path f = p) (files old), find (\<lambda>f. path f = p) (files new)) of
        (Some fo, Some fn) \<Rightarrow> content fo = content fn
      | _ \<Rightarrow> False)"

section \<open>An example workspace\<close>

text \<open>
  A workspace \<^verbatim>\<open>/home/ws\<close> with a file that cannot be read and a dependency
  directory, a store with one snapshot and one file that does not parse, and the
  surroundings of a restore on 22 October 2023 at 10:00:00 UTC.
\<close>

definition ex_ws :: "string list" where
  "ex_ws = [''home'', ''ws'']"

definition ex_target :: StoredSnapshot where
  "ex_target =
     \<lparr>stored_id = ''snapshot_20231021_100000_abcdef'',
      stored_timestamp = ''2023-10-21T10:00:00.000Z'',
      stored_trigger = file_save,
      stored_files = [\<lparr>path = ''a.txt'', content = ''old a'', size' = 5\<rparr>,
                      \<lparr>path = ''src/b.ts'', content = ''old b'', size' = 5\<rparr>,
                      \<lparr>path = ''lib/c.ts'', content = ''c'', size' = 1\<rparr>],
      stored_gitCommit = None\<rparr>"

definition ex_snapshot :: Snapshot where
  "ex_snapshot =
     \<lparr>id' = ''snapshot_20231021_100000_abcdef'',
      timestamp = TimeValue 1697882400000,
      trigger = file_save,
      files = [\<lparr>path = ''a.txt'', content = ''old a'', size' = 5\<rparr>,
               \<lparr>path = ''src/b.ts'', content = ''old b'', size' = 5\<rparr>,
               \<lparr>path = ''lib/c.ts'', content = ''c'', size' = 1\<rparr>],
      gitCommit = None\<rparr>"

definition ex_world :: world where
  "ex_world =
     \<lparr>root = Dir True True
        [(''home'', Dir True True
           [(''ws'', Dir True True
               [(''a.txt'', File 1),
                (''notes.md'', File 2),
                (''src'', Dir True True [(''b.ts'', File 3)]),
                (''node_modules'', Dir True True [(''m.js'', File 4)])]),
            (''other.txt'', File 5)])],
      inodes = [(1, \<lparr>readable = True, writable = True, bytes = ''new a''\<rparr>),
                (2, \<lparr>readable = True, writable = True, bytes = ''keep''\<rparr>),
                (3, \<lparr>readable = False, writable = True, bytes = ''secret''\<rparr>),
                (4, \<lparr>readable = True, writable = True, bytes = ''m''\<rparr>),
                (5, \<lparr>readable = True, writable = True, bytes = ''outside''\<rparr>)],
      store = [(''snapshot_20231021_100000_abcdef.json'', Serialized ex_target),
               (''bad.json'', Corrupt ''{'')],
      store_listable = True,
      store_writable = True,
      trace = []\<rparr>"

definition ex_env :: Env where
  "ex_env =
     \<lparr>clock = 1697968800000, tz_offset = 0, random16 = ''0.123456ab'', clock2 = 1697968800001\<rparr>"




section \<open>Notions for the frame of a restore\<close>

text \<open>An entry without what is below it, and the entry at a path in that form.\<close>

fun shallow :: "node \<Rightarrow> node" where
  "shallow (Dir l wr es) = Dir l wr []"
| "shallow n = n"

definition kind_at :: "node \<Rightarrow> string list \<Rightarrow> node option" where
  "kind_at r q = map_option shallow (lookup r q)"

text \<open>
  \<open>extends old r r'\<close>: the tree \<open>r'\<close> has every entry of \<open>r\<close> as it is in \<open>r\<close>, and
  where \<open>r\<close> has no entry, \<open>r'\<close> has none, a directory, or a regular file whose index
  node is not among \<open>old\<close>.
\<close>

definition extends :: "nat set \<Rightarrow> node \<Rightarrow> node \<Rightarrow> bool" where
  "extends old r r' \<longleftrightarrow>
     (\<forall>q. (kind_at r q \<noteq> None \<longrightarrow> kind_at r' q = kind_at r q)
        \<and> (kind_at r q = None \<longrightarrow>
             (case kind_at r' q of
                None \<Rightarrow> True
              | Some (File i) \<Rightarrow> i \<notin> old
              | Some (Dir l wr es) \<Rightarrow> True
              | Some other \<Rightarrow> False)))"

text \<open>
  \<open>entry_at n p k\<close>: below \<open>n\<close>, the names of \<open>p\<close> lead through directories to
  an entry \<open>k\<close>, no symbolic link followed.
\<close>

fun entry_at :: "node \<Rightarrow> string list \<Rightarrow> node \<Rightarrow> bool" where
  "entry_at n [] k = (n = k)"
| "entry_at (Dir l wr es) (c # cs) k = (\<exists>(name, ch) \<in> set es. name = c \<and> entry_at ch cs k)"
| "entry_at (File i) (c # cs) k = False"
| "entry_at (Link t) (c # cs) k = False"
| "entry_at Special (c # cs) k = False"

text \<open>The files that the paths of a snapshot's captures lead to, from the workspace root.\<close>

definition target_inodes :: "string list \<Rightarrow> node \<Rightarrow> FileSnapshot list \<Rightarrow> nat set" where
  "target_inodes ws r fs = {i. \<exists>f \<in> set fs. inode_at r (path_join ws (path f)) = Some i}"


section \<open>The lines of a change segment\<close>

lemma split_not_Nil: "split sep s \<noteq> []"
  by (induction s) (auto split: list.splits)

lemma filter_butlast_blank:
  "xs \<noteq> [] \<Longrightarrow> last xs = [] \<Longrightarrow>
   filter (\<lambda>l. l \<noteq> []) (butlast xs) = filter (\<lambda>l. l \<noteq> []) xs"
  by (induction xs) auto

lemma part_lines_spec_lines:
  "part_lines part = filter (\<lambda>l. l \<noteq> []) (spec_lines (value part))"
  by (simp add: part_lines_def spec_lines_def Let_def filter_butlast_blank split_not_Nil)

text \<open>
  C9 (as the specification states it, refuted): the lines of a segment are the newline
  split of its text with only the blank trailing fragment left out, interior blank lines
  kept. The segment \<^verbatim>\<open>"a\n\nb\n"\<close> has the interior blank line removed as well.
\<close>

theorem part_lines_drops_interior_blank:
  "part_lines \<lparr>value = [CHR ''a'', newline, newline, CHR ''b'', newline],
               added = True, removed = False\<rparr>
     = [''a'', ''b'']
   \<and> spec_lines [CHR ''a'', newline, newline, CHR ''b'', newline] = [''a'', '''', ''b'']
   \<and> part_lines \<lparr>value = [CHR ''a'', newline, newline, CHR ''b'', newline],
                 added = True, removed = False\<rparr>
     \<noteq> spec_lines [CHR ''a'', newline, newline, CHR ''b'', newline]"
  by (simp add: part_lines_def spec_lines_def newline_def)

text \<open>
  C9 (amended): the lines of a segment are the fragments of the newline split of its text
  with every blank fragment left out, in order; they are never blank, and they are the
  whole split without its blank trailing fragment exactly when that split has no other
  blank fragment.
\<close>

theorem part_lines_nonblank_fragments:
  "part_lines part = filter (\<lambda>l. l \<noteq> []) (spec_lines (value part))
   \<and> [] \<notin> set (part_lines part)
   \<and> (part_lines part = spec_lines (value part) \<longleftrightarrow> [] \<notin> set (spec_lines (value part)))"
proof -
  have eq: "part_lines part = filter (\<lambda>l. l \<noteq> []) (spec_lines (value part))"
    by (rule part_lines_spec_lines)
  have nb: "[] \<notin> set (part_lines part)"
    by (simp add: part_lines_def)
  have "filter (\<lambda>l. l \<noteq> []) xs = xs \<longleftrightarrow> [] \<notin> set xs" for xs :: "string list"
    by (auto simp: filter_id_conv)
  with eq nb show ?thesis by simp
qed

theorem part_lines_nonblank_fragments_witness:
  "part_lines \<lparr>value = [CHR ''a'', newline, CHR ''b'', newline], added = False, removed = True\<rparr>
     = [''a'', ''b'']
   \<and> spec_lines [CHR ''a'', newline, CHR ''b'', newline] = [''a'', ''b'']"
  using part_lines_nonblank_fragments
    [of "\<lparr>value = [CHR ''a'', newline, CHR ''b'', newline], added = False, removed = True\<rparr>"]
  by (simp add: spec_lines_def newline_def)

section \<open>Unchanged files are left out of a comparison\<close>

lemma set_foldl_set_add: "set (foldl set_add acc xs) = set acc \<union> set xs"
  by (induction xs arbitrary: acc) (auto simp: set_add_def)

lemma set_allFilePaths:
  "set (allFilePaths old new) = path ` set (files old) \<union> path ` set (files new)"
  by (simp add: allFilePaths_def set_foldl_set_add)

lemma unchanged_entry_empty:
  assumes "d \<in> set (computeDiffs dl old new)" and "same_in_both old new (diff_path d)"
  shows "generateFileDiffHtml d = []"
proof -
  from assms(1) obtain q where d: "d = \<lparr>diff_path = q,
      oldContent = (case find (\<lambda>f. path f = q) (files old) of
                      None \<Rightarrow> None | Some f \<Rightarrow> Some (content f)),
      newContent = (case find (\<lambda>f. path f = q) (files new) of
                      None \<Rightarrow> None | Some f \<Rightarrow> Some (content f)),
      diffHtml = generateDiffHtml
        (dl (case find (\<lambda>f. path f = q) (files old) of None \<Rightarrow> [] | Some f \<Rightarrow> content f)
            (case find (\<lambda>f. path f = q) (files new) of None \<Rightarrow> [] | Some f \<Rightarrow> content f))\<rparr>"
    by (auto simp: computeDiffs_def Let_def split: option.splits)
  with assms(2) show ?thesis
    by (auto simp: same_in_both_def generateFileDiffHtml_def split: option.splits)
qed

text \<open>
  C5: for every pair of snapshots and every line differ, the entry of a path that both
  snapshots hold with identical content renders to nothing, so the result has no entry
  for it; when every path of either snapshot is such a path, the whole result is empty.
\<close>

theorem diff_omits_unchanged:
  "(\<forall>d \<in> set (computeDiffs dl old new).
      same_in_both old new (diff_path d) \<longrightarrow> generateFileDiffHtml d = [])
   \<and> ((\<forall>p \<in> path ` set (files old) \<union> path ` set (files new). same_in_both old new p)
        \<longrightarrow> fileDiffsHtml dl old new = [])"
proof (intro conjI ballI impI)
  fix d assume "d \<in> set (computeDiffs dl old new)" "same_in_both old new (diff_path d)"
  then show "generateFileDiffHtml d = []" by (rule unchanged_entry_empty)
next
  assume all: "\<forall>p \<in> path ` set (files old) \<union> path ` set (files new). same_in_both old new p"
  have "generateFileDiffHtml d = []" if "d \<in> set (computeDiffs dl old new)" for d
  proof -
    from that have "diff_path d \<in> set (allFilePaths old new)"
      by (auto simp: computeDiffs_def Let_def)
    with all have "same_in_both old new (diff_path d)"
      by (simp add: set_allFilePaths)
    with that show ?thesis by (rule unchanged_entry_empty)
  qed
  then show "fileDiffsHtml dl old new = []"
    by (simp add: fileDiffsHtml_def)
qed

theorem diff_omits_unchanged_witness:
  "fileDiffsHtml
     (\<lambda>a b. [\<lparr>value = a, added = False, removed = True\<rparr>,
             \<lparr>value = b, added = True, removed = False\<rparr>])
     \<lparr>id' = ''snapshot_20231021_100000_abcdef'', timestamp = TimeValue 1697882400000,
      trigger = file_save,
      files = [\<lparr>path = ''a.txt'', content = ''x'', size' = 1\<rparr>,
               \<lparr>path = ''src/b.ts'', content = ''y'', size' = 1\<rparr>],
      gitCommit = None\<rparr>
     \<lparr>id' = ''snapshot_20231021_110000_123456'', timestamp = TimeValue 1697886000000,
      trigger = file_save,
      files = [\<lparr>path = ''src/b.ts'', content = ''y'', size' = 1\<rparr>,
               \<lparr>path = ''a.txt'', content = ''x'', size' = 1\<rparr>],
      gitCommit = None\<rparr>
   = []"
  using diff_omits_unchanged
    [of "\<lambda>a b. [\<lparr>value = a, added = False, removed = True\<rparr>,
                 \<lparr>value = b, added = True, removed = False\<rparr>]"
        "\<lparr>id' = ''snapshot_20231021_100000_abcdef'', timestamp = TimeValue 1697882400000,
          trigger = file_save,
          files = [\<lparr>path = ''a.txt'', content = ''x'', size' = 1\<rparr>,
                   \<lparr>path = ''src/b.ts'', content = ''y'', size' = 1\<rparr>],
          gitCommit = None\<rparr>"
        "\<lparr>id' = ''snapshot_20231021_110000_123456'', timestamp = TimeValue 1697886000000,
          trigger = file_save,
          files = [\<lparr>path = ''src/b.ts'', content = ''y'', size' = 1\<rparr>,
                   \<lparr>path = ''a.txt'', content = ''x'', size' = 1\<rparr>],
          gitCommit = None\<rparr>"]
  by (simp add: same_in_both_def)

section \<open>The two ignore lists\<close>

lemma str_includes_sublist: "str_includes s pat \<longleftrightarrow> sublist pat s"
  by (induction s) (auto simp: sublist_Cons_right)

lemma backup_ignored_shouldIgnoreFile: "backup_ignored p \<Longrightarrow> shouldIgnoreFile p"
  by (auto simp: backup_ignored_def shouldIgnoreFile_def backup_ignorePatterns_def
      ignorePatterns_def)

text \<open>
  C6 (the code at the failing input): live capture ignores \<^verbatim>\<open>yarn.lock\<close>, the walk
  of the backup does not and returns the file; the two predicates differ on this path.
\<close>

theorem backup_walk_keeps_lockfile:
  "shouldIgnoreFile ''yarn.lock''
   \<and> \<not> backup_ignored ''yarn.lock''
   \<and> getAllWorkspaceFiles [''ws'']
        \<lparr>root = Dir True True
                  [(''ws'', Dir True True
                             [(''yarn.lock'', File 1),
                              (''.git'', Dir True True [(''HEAD'', File 2)])])],
         inodes = [(1, \<lparr>readable = True, writable = True, bytes = ''lock''\<rparr>),
                   (2, \<lparr>readable = True, writable = True, bytes = ''ref''\<rparr>)],
         store = [], store_listable = True, store_writable = True, trace = []\<rparr>
     = Inr [[''ws'', ''yarn.lock'']]"
  by code_simp


section \<open>Identifiers\<close>

text \<open>
  C8 (the code at the failing input): on 21 October 2023, 14:30:25 UTC, two hours east of
  Greenwich, with \<^verbatim>\<open>Math.random()\<close> returning 0.5, whose hexadecimal string is
  \<^verbatim>\<open>0.8\<close>, the random suffix has one character, and so has the suffix of the
  backup identifier made from it.
\<close>

theorem generateSnapshotId_short_suffix:
  "generateSnapshotId
     \<lparr>clock = 1697898625123, tz_offset = 120, random16 = ''0.8'', clock2 = 1697898625124\<rparr>
     = ''snapshot_20231021_163025_8''
   \<and> createBackupBeforeRestore
        \<lparr>clock = 1697898625123, tz_offset = 120, random16 = ''0.8'', clock2 = 1697898625124\<rparr>
        [''ws'']
        \<lparr>root = Dir True True [(''ws'', Dir True True [])], inodes = [],
         store = [], store_listable = True, store_writable = True, trace = []\<rparr>
     = Inr (''backup_snapshot_20231021_163025_8'',
            \<lparr>root = Dir True True [(''ws'', Dir True True [])], inodes = [],
             store = [(''backup_snapshot_20231021_163025_8.json'',
                       Serialized
                         \<lparr>stored_id = ''backup_snapshot_20231021_163025_8'',
                          stored_timestamp = ''2023-10-21T14:30:25.124Z'',
                          stored_trigger = manual,
                          stored_files = [],
                          stored_gitCommit = None\<rparr>)],
             store_listable = True, store_writable = True,
             trace = [StoreWrite ''backup_snapshot_20231021_163025_8.json'']\<rparr>)"
  by code_simp

section \<open>Listing the identifiers\<close>

text \<open>
  C3 (the code at the failing input): a file is captured at 10:00:00 and at 11:00:00 UTC
  on 21 October 2023, and the first snapshot is restored one day later, which stores a
  backup snapshot; the listing then puts the newest identifier, the backup's, last.
\<close>

theorem getAllSnapshotIds_backup_last:
  "(let w0 = \<lparr>root = Dir True True [(''ws'', Dir True True [(''a.txt'', File 1)])],
              inodes = [(1, \<lparr>readable = True, writable = True, bytes = ''one''\<rparr>)],
              store = [], store_listable = True, store_writable = True, trace = []\<rparr>;
        w1 = snd (createSnapshot
                    \<lparr>clock = 1697882400000, tz_offset = 0, random16 = ''0.abcdef12'',
                     clock2 = 1697882400001\<rparr>
                    [''ws''] [''ws'', ''a.txt''] file_save w0);
        w2 = snd (createSnapshot
                    \<lparr>clock = 1697886000000, tz_offset = 0, random16 = ''0.fedcba98'',
                     clock2 = 1697886000001\<rparr>
                    [''ws''] [''ws'', ''a.txt''] file_save w1);
        w3 = snd (restoreSnapshot
                    \<lparr>clock = 1697968800000, tz_offset = 0, random16 = ''0.123456ab'',
                     clock2 = 1697968800001\<rparr>
                    [''ws''] ''snapshot_20231021_100000_abcdef'' w2)
    in getAllSnapshotIds w2
         = [''snapshot_20231021_110000_fedcba'', ''snapshot_20231021_100000_abcdef'']
       \<and> getAllSnapshotIds w3
           = [''snapshot_20231021_110000_fedcba'', ''snapshot_20231021_100000_abcdef'',
              ''backup_snapshot_20231022_100000_123456''])"
  by code_simp


section \<open>Loading a snapshot\<close>

text \<open>
  C7: for every identifier and store, \<^verbatim>\<open>loadSnapshot\<close> returns and does not throw, and
  what it returns is the absent result both when the record cannot be read and when its
  text does not parse, so the caller cannot tell the two apart.
\<close>

theorem loadSnapshot_absent:
  "(\<exists>r. loadSnapshot ident w = Inr r)
   \<and> (\<forall>e. store_readFile (ident @ ''.json'') w = Inl e \<longrightarrow> loadSnapshot ident w = Inr None)
   \<and> (\<forall>t e. store_readFile (ident @ ''.json'') w = Inr t \<and> JSON_parse t = Inl e
          \<longrightarrow> loadSnapshot ident w = Inr None)"
  by (auto simp: loadSnapshot_def loadSnapshot_try_def split: sum.splits)

theorem loadSnapshot_absent_witness:
  "store_readFile (''missing'' @ ''.json'')
      \<lparr>root = Special, inodes = [], store = [(''bad.json'', Corrupt ''{'')],
       store_listable = True, store_writable = True, trace = []\<rparr> = Inl ENOENT
   \<and> loadSnapshot ''missing''
        \<lparr>root = Special, inodes = [], store = [(''bad.json'', Corrupt ''{'')],
         store_listable = True, store_writable = True, trace = []\<rparr> = Inr None
   \<and> store_readFile (''bad'' @ ''.json'')
        \<lparr>root = Special, inodes = [], store = [(''bad.json'', Corrupt ''{'')],
         store_listable = True, store_writable = True, trace = []\<rparr> = Inr (Corrupt ''{'')
   \<and> JSON_parse (Corrupt ''{'') = Inl SyntaxError
   \<and> loadSnapshot ''bad''
        \<lparr>root = Special, inodes = [], store = [(''bad.json'', Corrupt ''{'')],
         store_listable = True, store_writable = True, trace = []\<rparr> = Inr None"
  using loadSnapshot_absent
    [of "''missing''" "\<lparr>root = Special, inodes = [], store = [(''bad.json'', Corrupt ''{'')],
         store_listable = True, store_writable = True, trace = []\<rparr>"]
    loadSnapshot_absent
    [of "''bad''" "\<lparr>root = Special, inodes = [], store = [(''bad.json'', Corrupt ''{'')],
         store_listable = True, store_writable = True, trace = []\<rparr>"]
  by (simp add: store_readFile_def JSON_parse_def)

section \<open>Restoring an identifier that is not in the store\<close>

text \<open>
  C2: when the identifier resolves to no stored snapshot, \<^verbatim>\<open>restoreSnapshot\<close> returns
  the failure "Snapshot not found" and leaves everything as it was: the store has no new
  backup, the file system and so every workspace file is unchanged, and nothing was
  written.
\<close>

theorem restore_not_found:
  assumes "loadSnapshot snapshotId w = Inr None"
  shows "restoreSnapshot env ws snapshotId w
           = (\<lparr>success = False, backupId = None, error = Some ''Snapshot not found''\<rparr>, w)"
  using assms by (simp add: restoreSnapshot_def)

theorem restore_not_found_witness:
  "loadSnapshot ''nonexistent-id''
      \<lparr>root = Dir True True [(''ws'', Dir True True [(''a.txt'', File 1)])],
       inodes = [(1, \<lparr>readable = True, writable = True, bytes = ''one''\<rparr>)],
       store = [(''bad.json'', Corrupt ''{'')],
       store_listable = True, store_writable = True, trace = []\<rparr> = Inr None
   \<and> restoreSnapshot
        \<lparr>clock = 1697882400000, tz_offset = 0, random16 = ''0.abcdef12'', clock2 = 1697882400001\<rparr>
        [''ws''] ''nonexistent-id''
        \<lparr>root = Dir True True [(''ws'', Dir True True [(''a.txt'', File 1)])],
         inodes = [(1, \<lparr>readable = True, writable = True, bytes = ''one''\<rparr>)],
         store = [(''bad.json'', Corrupt ''{'')],
         store_listable = True, store_writable = True, trace = []\<rparr>
     = (\<lparr>success = False, backupId = None, error = Some ''Snapshot not found''\<rparr>,
        \<lparr>root = Dir True True [(''ws'', Dir True True [(''a.txt'', File 1)])],
         inodes = [(1, \<lparr>readable = True, writable = True, bytes = ''one''\<rparr>)],
         store = [(''bad.json'', Corrupt ''{'')],
         store_listable = True, store_writable = True, trace = []\<rparr>)"
proof -
  have h: "loadSnapshot ''nonexistent-id''
      \<lparr>root = Dir True True [(''ws'', Dir True True [(''a.txt'', File 1)])],
       inodes = [(1, \<lparr>readable = True, writable = True, bytes = ''one''\<rparr>)],
       store = [(''bad.json'', Corrupt ''{'')],
       store_listable = True, store_writable = True, trace = []\<rparr> = Inr None"
    by (simp add: loadSnapshot_def loadSnapshot_try_def store_readFile_def)
  show ?thesis
    using h restore_not_found [OF h] by simp
qed


section \<open>Names and links\<close>

lemma lookup_append:
  "lookup n (p @ q) = (case lookup n p of None \<Rightarrow> None | Some m \<Rightarrow> lookup m q)"
  by (induction p arbitrary: n) (auto split: option.splits)

lemma kind_at_Nil: "kind_at n [] = Some (shallow n)"
  by (simp add: kind_at_def)

lemma kind_at_Cons:
  "kind_at n (c # cs) = (case child n c of None \<Rightarrow> None | Some ch \<Rightarrow> kind_at ch cs)"
  by (simp add: kind_at_def split: option.splits)

lemma kind_at_None_append: "kind_at r q = None \<Longrightarrow> kind_at r (q @ x) = None"
  by (simp add: kind_at_def lookup_append)

lemma shallow_File: "shallow n = File i \<longleftrightarrow> n = File i"
  by (cases n) auto

lemma kind_at_File: "kind_at r q = Some (File i) \<longleftrightarrow> lookup r q = Some (File i)"
  by (auto simp: kind_at_def shallow_File)

lemma resolve_Cons_kind:
  "resolve k r acc (c # cs) =
     (case kind_at r (acc @ [c]) of
        Some (Link t) \<Rightarrow> if k = 0 then Inl ELOOP else resolve (k - 1) r [] (t @ cs)
      | Some (Dir l wr es) \<Rightarrow> resolve k r (acc @ [c]) cs
      | _ \<Rightarrow> Inr (acc @ c # cs))"
  by (auto simp: kind_at_def split: option.splits node.splits)

lemma resolve_plain:
  "(\<And>x t. x \<noteq> [] \<Longrightarrow> kind_at r (a @ x) \<noteq> Some (Link t)) \<Longrightarrow> resolve k r a p = Inr (a @ p)"
proof (induction p arbitrary: a)
  case Nil
  then show ?case by simp
next
  case (Cons c cs)
  have no: "\<And>t. kind_at r (a @ [c]) \<noteq> Some (Link t)"
    using Cons.prems [of "[c]"] by simp
  have step: "resolve k r (a @ [c]) cs = Inr ((a @ [c]) @ cs)"
  proof (rule Cons.IH)
    fix x :: "string list" and t
    assume "x \<noteq> []"
    then show "kind_at r ((a @ [c]) @ x) \<noteq> Some (Link t)"
      using Cons.prems [of "c # x" t] by simp
  qed
  show ?case
    using no step by (simp only: resolve_Cons_kind split: option.splits node.splits) auto
qed

lemma extends_refl: "extends old r r"
  by (auto simp: extends_def split: option.splits)

lemma extends_same:
  "extends old r r' \<Longrightarrow> kind_at r q = Some k \<Longrightarrow> kind_at r' q = Some k"
  by (auto simp: extends_def)

lemma extends_new:
  "extends old r r' \<Longrightarrow> kind_at r q = None \<Longrightarrow>
   kind_at r' q = None \<or> (\<exists>i. kind_at r' q = Some (File i) \<and> i \<notin> old)
     \<or> (\<exists>l wr es. kind_at r' q = Some (Dir l wr es))"
  unfolding extends_def
  by (erule allE [of _ q]) (auto split: option.splits node.splits)

lemma resolve_extends:
  "extends old r r' \<Longrightarrow> resolve k r' acc p = resolve k r acc p"
proof (induction k r acc p rule: resolve.induct)
  case (1 k r acc)
  then show ?case by simp
next
  case (2 k r acc c cs)
  show ?case
  proof (cases "kind_at r (acc @ [c])")
    case None
    have plain: "resolve k r' (acc @ [c]) cs = Inr ((acc @ [c]) @ cs)"
    proof (rule resolve_plain)
      fix x :: "string list" and t
      have "kind_at r ((acc @ [c]) @ x) = None"
        using None by (rule kind_at_None_append)
      from extends_new [OF "2.prems" this]
      show "kind_at r' ((acc @ [c]) @ x) \<noteq> Some (Link t)"
        by auto
    qed
    from extends_new [OF "2.prems" None] plain None show ?thesis
      by (auto simp only: resolve_Cons_kind split: option.splits node.splits) auto
  next
    case (Some kd)
    have same: "kind_at r' (acc @ [c]) = Some kd"
      using "2.prems" Some by (rule extends_same)
    show ?thesis
    proof (cases kd)
      case (Link t)
      then have lk: "lookup r (acc @ [c]) = Some (Link t)"
        using Some by (auto simp: kind_at_def) (metis node.distinct node.inject shallow.elims)
      show ?thesis
      proof (cases "k = 0")
        case True
        then show ?thesis using Some same Link by (simp only: resolve_Cons_kind) simp
      next
        case False
        have "resolve (k - 1) r' [] (t @ cs) = resolve (k - 1) r [] (t @ cs)"
          using "2.IH"(2) [OF lk refl False "2.prems"] .
        then show ?thesis using Some same Link False by (simp only: resolve_Cons_kind) simp
      qed
    next
      case (Dir l wr es)
      then obtain es' where lk: "lookup r (acc @ [c]) = Some (Dir l wr es')"
        using Some by (auto simp: kind_at_def) (metis node.distinct node.inject shallow.elims)
      have "resolve k r' (acc @ [c]) cs = resolve k r (acc @ [c]) cs"
        using "2.IH"(1) [OF lk refl "2.prems"] .
      then show ?thesis using Some same Dir by (simp only: resolve_Cons_kind) simp
    next
      case (File i)
      then show ?thesis using Some same by (simp only: resolve_Cons_kind) simp
    next
      case Special
      then show ?thesis using Some same by (simp only: resolve_Cons_kind) simp
    qed
  qed
qed

lemma realpath_extends: "extends old r r' \<Longrightarrow> realpath r' p = realpath r p"
  by (simp add: realpath_def resolve_extends)


lemma inode_at_extends_old:
  assumes "extends old r r'" and "inode_at r' p = Some i" and "i \<in> old"
  shows "inode_at r p = Some i"
proof -
  from assms(2) obtain q where q: "realpath r' p = Inr q" and lk: "lookup r' q = Some (File i)"
    by (auto simp: inode_at_def node_at_def split: sum.splits option.splits node.splits)
  from lk have k': "kind_at r' q = Some (File i)"
    by (simp add: kind_at_File)
  have "kind_at r q = Some (File i)"
  proof (cases "kind_at r q")
    case None
    from extends_new [OF assms(1) None] k' assms(3) show ?thesis
      by auto
  next
    case (Some kd)
    with assms(1) have "kind_at r' q = Some kd"
      by (rule extends_same)
    with k' Some show ?thesis by simp
  qed
  then have "lookup r q = Some (File i)"
    by (simp add: kind_at_File)
  with q show ?thesis
    by (simp add: inode_at_def node_at_def realpath_extends [OF assms(1)])
qed

lemma add_entry_kind:
  "add_entry d c new n = Inr n' \<Longrightarrow> (\<And>x. child new x = None) \<Longrightarrow> shallow new = new \<Longrightarrow>
   kind_at n (d @ [c]) = None
   \<and> kind_at n' q = (if q = d @ [c] then Some new else kind_at n q)"
proof (induction d arbitrary: n n' q)
  case Nil
  from Nil.prems(1) obtain l wr es where n: "n = Dir l wr es"
    by (cases n) auto
  with Nil.prems(1) have absent: "map_of es c = None" and n': "n' = Dir l wr (es @ [(c, new)])"
    by (auto split: if_splits)
  show ?case
  proof (cases q)
    case Nil
    then show ?thesis using n n' absent by (simp add: kind_at_Nil kind_at_Cons)
  next
    case (Cons x xs)
    show ?thesis
    proof (cases "x = c")
      case True
      then show ?thesis
        using n n' absent Cons Nil.prems(2,3)
        by (cases xs) (simp_all add: kind_at_Nil kind_at_Cons map_add_def)
    next
      case False
      then show ?thesis
        using n n' absent Cons
        by (simp add: kind_at_Cons map_add_def split: option.splits)
    qed
  qed
next
  case (Cons y d)
  from Cons.prems(1) obtain l wr es where n: "n = Dir l wr es"
    by (cases n) auto
  with Cons.prems(1) obtain ch ch' where ch: "map_of es y = Some ch"
    and a: "add_entry d c new ch = Inr ch'" and n': "n' = Dir l wr (AList.update y ch' es)"
    by (auto split: option.splits sum.splits)
  note ih = Cons.IH [OF a Cons.prems(2,3)]
  show ?case
  proof (cases q)
    case Nil
    then show ?thesis using n n' ch ih [of "[]"] by (simp add: kind_at_Nil kind_at_Cons)
  next
    case (Cons x xs)
    then show ?thesis
      using n n' ch ih [of xs] by (auto simp: kind_at_Cons update_conv')
  qed
qed

lemma add_entry_extends:
  assumes ext: "extends old r r1" and add: "add_entry d c new r1 = Inr r2"
    and new: "new = Dir True True [] \<or> (\<exists>j. new = File j \<and> j \<notin> old)"
  shows "extends old r r2"
proof -
  from new have ch: "\<And>x. child new x = None" and sh: "shallow new = new"
    by auto
  from add_entry_kind [OF add ch sh]
  have absent: "kind_at r1 (d @ [c]) = None"
    and k2: "\<And>q. kind_at r2 q = (if q = d @ [c] then Some new else kind_at r1 q)"
    by auto
  show ?thesis
    unfolding extends_def
  proof (intro allI conjI impI)
    fix q
    assume "kind_at r q \<noteq> None"
    then obtain kd where kd: "kind_at r q = Some kd" by auto
    with ext have "kind_at r1 q = Some kd" by (rule extends_same)
    with absent kd show "kind_at r2 q = kind_at r q"
      by (auto simp: k2)
  next
    fix q
    assume none: "kind_at r q = None"
    show "case kind_at r2 q of None \<Rightarrow> True | Some (File i) \<Rightarrow> i \<notin> old
          | Some (Dir l wr es) \<Rightarrow> True | Some other \<Rightarrow> False"
    proof (cases "q = d @ [c]")
      case True
      then show ?thesis using new by (auto simp: k2)
    next
      case False
      then show ?thesis
        using extends_new [OF ext none] by (auto simp: k2)
    qed
  qed
qed

lemma mkdirs_extends:
  "extends old r r1 \<Longrightarrow> mkdirs r1 d cs = Inr r2 \<Longrightarrow> extends old r r2"
proof (induction cs arbitrary: r1 d)
  case Nil
  then show ?case by simp
next
  case (Cons c cs)
  show ?case
  proof (cases "lookup r1 (d @ [c])")
    case None
    with Cons.prems(2) obtain r' where a: "add_entry d c (Dir True True []) r1 = Inr r'"
      and m: "mkdirs r' (d @ [c]) cs = Inr r2"
      by (auto split: sum.splits)
    have "extends old r r'"
      using Cons.prems(1) a by (rule add_entry_extends) simp
    then show ?thesis using m by (rule Cons.IH)
  next
    case (Some nd)
    then show ?thesis
      using Cons.prems Cons.IH
      by (cases nd) (auto split: sum.splits option.splits node.splits if_splits)
  qed
qed

lemma fold_max_bound: "a \<le> fold max xs a \<and> (\<forall>x \<in> set xs. x \<le> fold max xs (a :: nat))"
proof (induction xs arbitrary: a)
  case Nil
  then show ?case by simp
next
  case (Cons y ys)
  from Cons.IH [of "max y a"] show ?case
    by auto
qed

lemma fresh_inode_new: "fresh_inode tab \<notin> fst ` set tab"
proof
  assume "fresh_inode tab \<in> fst ` set tab"
  then have "fresh_inode tab \<in> set (map fst tab)" by simp
  with fold_max_bound [of 0 "map fst tab"] have "fresh_inode tab \<le> fold max (map fst tab) 0"
    by blast
  then show False by (simp add: fresh_inode_def)
qed

section \<open>What a restore leaves alone\<close>

lemma mkdirSync_effect:
  "mkdirSync d w = Inr w1 \<Longrightarrow> extends old r (root w) \<Longrightarrow>
   extends old r (root w1) \<and> inodes w1 = inodes w \<and> store w1 = store w
   \<and> trace w1 = trace w @ [FsMkdir d]"
  by (auto simp: mkdirSync_def mkdirs_extends split: sum.splits)

lemma writeFile_effect:
  assumes wr: "writeFile p text w = Inr w1"
    and ext: "extends old r (root w)"
    and dom: "old \<subseteq> fst ` set (inodes w)"
  shows "extends old r (root w1) \<and> old \<subseteq> fst ` set (inodes w1) \<and> store w1 = store w
     \<and> trace w1 = trace w @ [FsWrite p]
     \<and> (\<forall>i. i \<in> old \<and> inode_at r p \<noteq> Some i \<longrightarrow> map_of (inodes w1) i = map_of (inodes w) i)"
proof -
  from wr obtain q where q: "realpath (root w) p = Inr q"
    by (auto simp: writeFile_def split: sum.splits)
  show ?thesis
  proof (cases "lookup (root w) q")
    case None
    with wr q obtain n where
      add: "add_entry (butlast q) (last q) (File (fresh_inode (inodes w))) (root w) = Inr n"
      and w1: "w1 = w\<lparr>root := n,
                      inodes := inodes w @
                        [(fresh_inode (inodes w), \<lparr>readable = True, writable = True, bytes = text\<rparr>)],
                      trace := trace w @ [FsWrite p]\<rparr>"
      by (auto simp: writeFile_def split: sum.splits)
    from dom fresh_inode_new [of "inodes w"] have "fresh_inode (inodes w) \<notin> old"
      by auto
    with ext add have "extends old r n"
      by (auto intro: add_entry_extends)
    moreover have "map_of (inodes w1) i = map_of (inodes w) i" if "i \<in> old" for i
    proof -
      from that dom obtain v where "map_of (inodes w) i = Some v"
        by (metis subsetD weak_map_of_SomeI image_iff prod.collapse map_of_eq_None_iff not_Some_eq)
      then show ?thesis
        by (simp add: w1 map_add_def)
    qed
    ultimately show ?thesis
      using dom by (auto simp: w1)
  next
    case (Some nd)
    with wr q obtain i ino where nd: "nd = File i" and ino: "map_of (inodes w) i = Some ino"
      and w1: "w1 = w\<lparr>inodes := AList.update i (ino\<lparr>bytes := text\<rparr>) (inodes w),
                      trace := trace w @ [FsWrite p]\<rparr>"
      by (cases nd) (auto simp: writeFile_def split: sum.splits option.splits if_splits)
    have at: "inode_at (root w) p = Some i"
      using q Some nd by (simp add: inode_at_def node_at_def)
    have "inode_at r p = Some i" if "i \<in> old"
      using ext at that by (rule inode_at_extends_old)
    then have "map_of (inodes w1) j = map_of (inodes w) j" if "j \<in> old" "inode_at r p \<noteq> Some j" for j
      using that by (auto simp: w1 update_conv')
    moreover have "old \<subseteq> fst ` set (inodes w1)"
      using dom by (auto simp: w1 dom_update)
    ultimately show ?thesis
      using ext by (auto simp: w1)
  qed
qed

text \<open>The events a restore of the given files may add to the trace.\<close>

lemma restoreFile_effect:
  assumes rf: "restoreFile ws f0 w = (e, w')"
    and ext: "extends old r (root w)"
    and dom: "old \<subseteq> fst ` set (inodes w)"
  shows "extends old r (root w') \<and> old \<subseteq> fst ` set (inodes w') \<and> store w' = store w
     \<and> (\<forall>i. i \<in> old \<and> inode_at r (path_join ws (path f0)) \<noteq> Some i
            \<longrightarrow> map_of (inodes w') i = map_of (inodes w) i)
     \<and> (\<exists>evs. trace w' = trace w @ evs
            \<and> set evs \<subseteq> {FsMkdir (dirname (path_join ws (path f0))),
                            FsWrite (path_join ws (path f0))})"
proof -
  define w1 where "w1 = (if existsSync (dirname (path_join ws (path f0))) w then Inr w
                         else mkdirSync (dirname (path_join ws (path f0))) w)"
  show ?thesis
  proof (cases w1)
    case (Inl err)
    with rf have "w' = w"
      by (auto simp: restoreFile_def Let_def w1_def split: if_splits)
    with ext dom show ?thesis by simp
  next
    case (Inr w2)
    have m: "extends old r (root w2) \<and> inodes w2 = inodes w \<and> store w2 = store w
        \<and> (trace w2 = trace w \<or> trace w2 = trace w @ [FsMkdir (dirname (path_join ws (path f0)))])"
      using Inr ext mkdirSync_effect [of "dirname (path_join ws (path f0))" w w2 old r]
      by (auto simp: w1_def split: if_splits)
    from rf Inr consider "w' = w2"
      | w3 where "writeFile (path_join ws (path f0)) (content f0) w2 = Inr w3" "w' = w3"
      by (auto simp: restoreFile_def Let_def w1_def split: if_splits sum.splits)
    then show ?thesis
    proof cases
      case 1
      with m dom show ?thesis by auto
    next
      case 2
      from m dom have "old \<subseteq> fst ` set (inodes w2)" by simp
      from writeFile_effect [OF 2(1) _ this, of r] m 2(2) show ?thesis by auto
    qed
  qed
qed

lemma restoreFiles_effect:
  "restoreFiles ws fs w = (e, w') \<Longrightarrow> extends old r (root w) \<Longrightarrow>
   old \<subseteq> fst ` set (inodes w) \<Longrightarrow>
   extends old r (root w') \<and> store w' = store w
   \<and> (\<forall>i. i \<in> old \<and> i \<notin> target_inodes ws r fs \<longrightarrow> map_of (inodes w') i = map_of (inodes w) i)
   \<and> (\<exists>evs. trace w' = trace w @ evs
          \<and> set evs \<subseteq> (\<lambda>f. FsMkdir (dirname (path_join ws (path f)))) ` set fs
                        \<union> (\<lambda>f. FsWrite (path_join ws (path f))) ` set fs)"
proof (induction fs arbitrary: w)
  case Nil
  then show ?case by simp
next
  case (Cons f0 rest)
  obtain e1 w1 where rf: "restoreFile ws f0 w = (e1, w1)"
    by (cases "restoreFile ws f0 w")
  note s1 = restoreFile_effect [OF rf Cons.prems(2,3)]
  have t0: "i \<notin> target_inodes ws r (f0 # rest) \<Longrightarrow>
      inode_at r (path_join ws (path f0)) \<noteq> Some i \<and> i \<notin> target_inodes ws r rest" for i
    by (auto simp: target_inodes_def)
  show ?case
  proof (cases e1)
    case (Some err)
    with rf Cons.prems have "w' = w1" by simp
    with s1 t0 show ?thesis by auto
  next
    case None
    with rf Cons.prems have "restoreFiles ws rest w1 = (e, w')" by simp
    from Cons.IH [OF this] s1 have s2: "extends old r (root w') \<and> store w' = store w1
       \<and> (\<forall>i. i \<in> old \<and> i \<notin> target_inodes ws r rest
              \<longrightarrow> map_of (inodes w') i = map_of (inodes w1) i)
       \<and> (\<exists>evs. trace w' = trace w1 @ evs
              \<and> set evs \<subseteq> (\<lambda>f. FsMkdir (dirname (path_join ws (path f)))) ` set rest
                            \<union> (\<lambda>f. FsWrite (path_join ws (path f))) ` set rest)"
      by blast
    from s1 obtain evs1 where tr1: "trace w1 = trace w @ evs1"
      and ev1: "set evs1 \<subseteq> {FsMkdir (dirname (path_join ws (path f0))),
                             FsWrite (path_join ws (path f0))}"
      by blast
    from s2 obtain evs2 where tr2: "trace w' = trace w1 @ evs2"
      and ev2: "set evs2 \<subseteq> (\<lambda>f. FsMkdir (dirname (path_join ws (path f)))) ` set rest
                            \<union> (\<lambda>f. FsWrite (path_join ws (path f))) ` set rest"
      by blast
    have tr: "trace w' = trace w @ (evs1 @ evs2)"
      using tr1 tr2 by simp
    have ev: "set (evs1 @ evs2) \<subseteq> (\<lambda>f. FsMkdir (dirname (path_join ws (path f)))) ` set (f0 # rest)
                            \<union> (\<lambda>f. FsWrite (path_join ws (path f))) ` set (f0 # rest)"
      using ev1 ev2 by auto
    have fr: "map_of (inodes w') i = map_of (inodes w) i"
      if "i \<in> old" "i \<notin> target_inodes ws r (f0 # rest)" for i
      using s1 s2 t0 [OF that(2)] that(1) by simp
    from s1 s2 tr ev fr show ?thesis
      by (intro conjI allI impI exI [of _ "evs1 @ evs2"]) auto
  qed
qed








section \<open>The backup taken before a restore\<close>

lemma join_path_append:
  "q \<noteq> [] \<Longrightarrow> join_path (q @ r) = join_path q @ (if r = [] then [] else ''/'' @ join_path r)"
proof (induction q rule: join_path.induct)
  case 1
  then show ?case by simp
next
  case (2 c)
  then show ?case by (cases r) auto
next
  case (3 c d cs)
  then show ?case by simp
qed

lemma backup_ignored_append: "backup_ignored s \<Longrightarrow> backup_ignored (s @ t)"
  by (auto simp: backup_ignored_def list_ex_iff str_includes_sublist intro: sublist_appendI
      dest: sublist_order.order_trans [OF _ prefix_imp_sublist [of s "s @ t"]])

lemma backup_ignored_prefix:
  assumes "\<not> backup_ignored (join_path p)" and "prefix q p" and "q \<noteq> []"
  shows "\<not> backup_ignored (join_path q)"
proof -
  from assms(2) obtain r where "p = q @ r" by (auto simp: prefix_def)
  with assms(3) have "join_path p = join_path q @ (if r = [] then [] else ''/'' @ join_path r)"
    by (simp add: join_path_append)
  with assms(1) show ?thesis
    by (metis backup_ignored_append)
qed

lemma path_relative_append [simp]: "path_relative ws (ws @ p) = join_path p"
  by (simp add: path_relative_def)

text \<open>The walk visits the first entry of each name, which is the one a lookup finds.\<close>

lemma walkEntries_visits:
  "walkEntries ws dir es = Inr fs \<Longrightarrow> map_of es c = Some ch \<Longrightarrow>
   \<not> backup_ignored (path_relative ws (dir @ [c])) \<Longrightarrow>
   (case ch of
      File i \<Rightarrow> dir @ [c] \<in> set fs
    | Dir l wr sub \<Rightarrow> (\<exists>gs. walkDir ws (dir @ [c]) ch = Inr gs \<and> set gs \<subseteq> set fs)
    | Link t \<Rightarrow> True
    | Special \<Rightarrow> True)"
proof (induction es arbitrary: fs)
  case Nil
  then show ?case by simp
next
  case (Cons e es)
  obtain name n where e: "e = (name, n)" by (cases e)
  show ?case
  proof (cases "name = c")
    case True
    with Cons.prems e have "n = ch" by simp
    with Cons.prems True e show ?thesis
      by (cases ch) (auto simp: Let_def split: sum.splits if_splits)
  next
    case False
    with Cons.prems e have m: "map_of es c = Some ch" by simp
    from Cons.prems(1) e have "\<exists>gs. walkEntries ws dir es = Inr gs \<and> set gs \<subseteq> set fs"
      by (cases n) (auto simp: Let_def split: sum.splits if_splits)
    then obtain gs where g: "walkEntries ws dir es = Inr gs" and "set gs \<subseteq> set fs"
      by blast
    with Cons.IH [OF g m Cons.prems(3)] show ?thesis
      by (cases ch) (auto simp del: walkDir.simps)
  qed
qed

lemma walkDir_complete:
  "walkDir ws dir n = Inr fs \<Longrightarrow> p \<noteq> [] \<Longrightarrow> lookup n p = Some (File i) \<Longrightarrow>
   (\<forall>q. q \<noteq> [] \<and> prefix q p \<longrightarrow> \<not> backup_ignored (path_relative ws (dir @ q))) \<Longrightarrow>
   dir @ p \<in> set fs"
proof (induction p arbitrary: dir n fs)
  case Nil
  then show ?case by simp
next
  case (Cons c cs)
  from Cons.prems(3) obtain l wr es where n: "n = Dir l wr es"
    by (cases n) auto
  with Cons.prems(1) have es: "walkEntries ws dir es = Inr fs"
    by (auto split: if_splits)
  from Cons.prems(3) n obtain ch where ch: "map_of es c = Some ch" and lk: "lookup ch cs = Some (File i)"
    by (auto split: option.splits)
  from Cons.prems(4) have ni: "\<not> backup_ignored (path_relative ws (dir @ [c]))"
    by (auto dest: spec [of _ "[c]"])
  note v = walkEntries_visits [OF es ch ni]
  show ?case
  proof (cases cs)
    case Nil
    with lk v show ?thesis by simp
  next
    case (Cons d ds)
    with lk obtain l' wr' sub where "ch = Dir l' wr' sub"
      by (cases ch) auto
    with v obtain gs where g: "walkDir ws (dir @ [c]) ch = Inr gs" and sub: "set gs \<subseteq> set fs"
      by auto
    have "\<forall>q. q \<noteq> [] \<and> prefix q cs \<longrightarrow> \<not> backup_ignored (path_relative ws ((dir @ [c]) @ q))"
      using Cons.prems(4) by (auto dest: spec [of _ "c # q" for q])
    from Cons.IH [OF g _ lk this] Cons sub show ?thesis by auto
  qed
qed

text \<open>Every path the walk returns names a regular file, through directories.\<close>

lemma walk_sound:
  "walkDir ws dir n = Inr fs \<Longrightarrow> x \<in> set fs \<Longrightarrow>
   \<exists>p i. p \<noteq> [] \<and> x = dir @ p \<and> entry_at n p (File i)"
  "walkEntries ws dir es = Inr fs \<Longrightarrow> x \<in> set fs \<Longrightarrow>
   \<exists>c cs ch i. (c, ch) \<in> set es \<and> x = dir @ c # cs \<and> entry_at ch cs (File i)"
proof (induction ws dir n and ws dir es arbitrary: fs and fs rule: walkDir_walkEntries.induct)
  case (1 ws dir l wr es)
  then have "walkEntries ws dir es = Inr fs"
    by (auto split: if_splits)
  from "1.IH" [OF _ this "1.prems"(2)] "1.prems"(1) obtain c cs ch i
    where "(c, ch) \<in> set es" "x = dir @ c # cs" "entry_at ch cs (File i)"
    by (auto split: if_splits)
  then show ?case
    by (intro exI [of _ "c # cs"] exI [of _ i]) auto
next
  case (6 ws dir name n es)
  have rest: "\<exists>c cs ch i. (c, ch) \<in> set ((name, n) # es) \<and> x = dir @ c # cs
      \<and> entry_at ch cs (File i)"
    if "\<exists>c cs ch i. (c, ch) \<in> set es \<and> x = dir @ c # cs \<and> entry_at ch cs (File i)"
    using that by auto
  show ?case
  proof (cases "backup_ignored (path_relative ws (dir @ [name]))")
    case True
    with "6.prems"(1) have "walkEntries ws dir es = Inr fs"
      by (simp add: Let_def)
    from "6.IH"(1) [OF refl refl True this "6.prems"(2)] show ?thesis
      by (rule rest)
  next
    case False
    show ?thesis
    proof (cases n)
      case (File i)
      with False "6.prems"(1) obtain gs where g: "walkEntries ws dir es = Inr gs"
        and fs: "fs = (dir @ [name]) # gs"
        by (auto simp: Let_def split: sum.splits)
      show ?thesis
      proof (cases "x = dir @ [name]")
        case True
        with File show ?thesis
          by (intro exI [of _ name] exI [of _ "[]"] exI [of _ n] exI [of _ i]) simp
      next
        case ne: False
        with fs "6.prems"(2) have "x \<in> set gs" by simp
        from "6.IH"(2) [OF refl refl False File g this] show ?thesis
          by (rule rest)
      qed
    next
      case (Dir l wr sub)
      with False "6.prems"(1) obtain gs hs where g: "walkDir ws (dir @ [name]) n = Inr gs"
        and h: "walkEntries ws dir es = Inr hs" and fs: "fs = gs @ hs"
        by (auto simp: Let_def simp del: walkDir.simps split: sum.splits)
      from "6.prems"(2) fs consider "x \<in> set gs" | "x \<in> set hs"
        by auto
      then show ?thesis
      proof cases
        case 1
        from "6.IH"(3) [OF refl refl False Dir g 1] obtain p i
          where "x = (dir @ [name]) @ p" "entry_at n p (File i)"
          by blast
        then show ?thesis
          by (intro exI [of _ name] exI [of _ p] exI [of _ n] exI [of _ i]) simp
      next
        case 2
        from "6.IH"(4) [OF refl refl False Dir g h 2] show ?thesis
          by (rule rest)
      qed
    next
      case (Link t)
      with False "6.prems"(1) have "walkEntries ws dir es = Inr fs"
        by (simp add: Let_def)
      from "6.IH"(5) [OF refl refl False Link this "6.prems"(2)] show ?thesis
        by (rule rest)
    next
      case Special
      with False "6.prems"(1) have "walkEntries ws dir es = Inr fs"
        by (simp add: Let_def)
      from "6.IH"(6) [OF refl refl False Special this "6.prems"(2)] show ?thesis
        by (rule rest)
    qed
  qed
qed auto

text \<open>The relative path of every path the walk returns has passed the ignore test.\<close>

lemma walk_not_ignored:
  "walkDir ws dir n = Inr fs \<Longrightarrow> x \<in> set fs \<Longrightarrow> \<not> backup_ignored (path_relative ws x)"
  "walkEntries ws dir es = Inr fs \<Longrightarrow> x \<in> set fs \<Longrightarrow> \<not> backup_ignored (path_relative ws x)"
proof (induction ws dir n and ws dir es arbitrary: fs and fs rule: walkDir_walkEntries.induct)
  case (6 ws dir name n es)
  show ?case
  proof (cases "backup_ignored (path_relative ws (dir @ [name]))")
    case True
    with "6.prems"(1) have "walkEntries ws dir es = Inr fs"
      by (simp add: Let_def)
    from "6.IH"(1) [OF refl refl True this "6.prems"(2)] show ?thesis .
  next
    case False
    show ?thesis
    proof (cases n)
      case (File i)
      with False "6.prems"(1) obtain gs where g: "walkEntries ws dir es = Inr gs"
        and fs: "fs = (dir @ [name]) # gs"
        by (auto simp: Let_def split: sum.splits)
      show ?thesis
      proof (cases "x = dir @ [name]")
        case True
        with False show ?thesis by simp
      next
        case ne: False
        with fs "6.prems"(2) have "x \<in> set gs" by simp
        from "6.IH"(2) [OF refl refl False File g this] show ?thesis .
      qed
    next
      case (Dir l wr sub)
      with False "6.prems"(1) obtain gs hs where g: "walkDir ws (dir @ [name]) n = Inr gs"
        and h: "walkEntries ws dir es = Inr hs" and fs: "fs = gs @ hs"
        by (auto simp: Let_def simp del: walkDir.simps split: sum.splits)
      from "6.prems"(2) fs consider "x \<in> set gs" | "x \<in> set hs"
        by auto
      then show ?thesis
      proof cases
        case 1
        from "6.IH"(3) [OF refl refl False Dir g 1] show ?thesis .
      next
        case 2
        from "6.IH"(4) [OF refl refl False Dir g h 2] show ?thesis .
      qed
    next
      case (Link t)
      with False "6.prems"(1) have "walkEntries ws dir es = Inr fs"
        by (simp add: Let_def)
      from "6.IH"(5) [OF refl refl False Link this "6.prems"(2)] show ?thesis .
    next
      case Special
      with False "6.prems"(1) have "walkEntries ws dir es = Inr fs"
        by (simp add: Let_def)
      from "6.IH"(6) [OF refl refl False Special this "6.prems"(2)] show ?thesis .
    qed
  qed
qed (auto split: if_splits)

text \<open>A path through directories to a file, appended to a path, resolves below it.\<close>

lemma resolve_below:
  "lookup r (a @ p) = Some (File i) \<Longrightarrow> p \<noteq> [] \<Longrightarrow> resolve k r a p = Inr (a @ p)"
proof (induction p arbitrary: a)
  case Nil
  then show ?case by simp
next
  case (Cons c cs)
  show ?case
  proof (cases cs)
    case Nil
    with Cons.prems show ?thesis by simp
  next
    case (Cons c' cs')
    from Cons.prems(1) have lk: "lookup r ((a @ [c]) @ cs) = Some (File i)"
      by simp
    then have "(case lookup r (a @ [c]) of None \<Rightarrow> None | Some m \<Rightarrow> lookup m cs)
        = Some (File i)"
      by (simp only: lookup_append)
    then obtain m where m: "lookup r (a @ [c]) = Some m" and below: "lookup m cs = Some (File i)"
      by (auto split: option.splits)
    from below Cons obtain l wr es where "m = Dir l wr es"
      by (cases m) auto
    with m Cons.IH [OF lk] Cons show ?thesis
      by simp
  qed
qed

lemma resolve_append:
  "resolve k r acc ws = Inr d \<Longrightarrow> lookup r d = Some n \<Longrightarrow> lookup n p = Some (File i) \<Longrightarrow>
   p \<noteq> [] \<Longrightarrow> resolve k r acc (ws @ p) = Inr (d @ p)"
proof (induction k r acc ws rule: resolve.induct)
  case (1 k r acc)
  then have "lookup r (acc @ p) = Some (File i)"
    by (simp add: lookup_append)
  with 1 show ?case
    by (simp add: resolve_below)
next
  case (2 k r acc c cs)
  show ?case
  proof (cases "lookup r (acc @ [c])")
    case None
    with "2.prems" show ?thesis
      by (auto simp: lookup_append [of r "acc @ [c]" cs, simplified])
  next
    case (Some m)
    show ?thesis
    proof (cases m)
      case (File j)
      with Some "2.prems" show ?thesis
        by (cases cs; cases p) (auto simp: lookup_append [of r "acc @ [c]" cs, simplified])
    next
      case Special
      with Some "2.prems" show ?thesis
        by (cases cs; cases p) (auto simp: lookup_append [of r "acc @ [c]" cs, simplified])
    next
      case (Dir l wr es)
      with Some "2.prems" "2.IH"(1) [OF Some Dir] show ?thesis
        by simp
    next
      case (Link t)
      with Some "2.prems" "2.IH"(2) [OF Some Link] show ?thesis
        by (auto split: if_splits)
    qed
  qed
qed

lemma inode_at_below:
  assumes "node_at r ws = Some n" and "lookup n p = Some (File i)" and "p \<noteq> []"
  shows "inode_at r (ws @ p) = Some i"
proof -
  from assms(1) obtain d where d: "realpath r ws = Inr d" and n: "lookup r d = Some n"
    by (auto simp: node_at_def split: sum.splits)
  from resolve_append [OF d [unfolded realpath_def] n assms(2,3)]
  have "realpath r (ws @ p) = Inr (d @ p)"
    by (simp add: realpath_def)
  moreover have "lookup r (d @ p) = Some (File i)"
    using n assms(2) by (simp add: lookup_append)
  ultimately show ?thesis
    by (simp add: inode_at_def node_at_def)
qed

text \<open>
  Reading keeps well-formed UTF-8 and puts U+FFFD where the bytes are not: one for a lone
  byte \<^verbatim>\<open>FF\<close>, one for a sequence that is cut short, three for an encoded
  surrogate.
\<close>

lemma utf8_decode_examples:
  "utf8_decode ''keep'' = ''keep''"
  "utf8_decode [CHR 0xC3, CHR 0xA9] = [CHR 0xC3, CHR 0xA9]"
  "utf8_decode [CHR 0xFF, CHR 0x41] = replacement @ ''A''"
  "utf8_decode [CHR 0xE2, CHR 0x82, CHR 0x41] = replacement @ ''A''"
  "utf8_decode [CHR 0xED, CHR 0xA0, CHR 0x80] = replacement @ replacement @ replacement"
  by code_simp+

lemma set_map_filter: "set (List.map_filter g xs) = {y. \<exists>x \<in> set xs. g x = Some y}"
  by (induction xs) (auto split: option.splits)

lemma backupFile_complete:
  assumes "inode_at (root w) x = Some i" and "map_of (inodes w) i = Some ino"
    and "readable ino"
  shows "backupFile ws w x
    = Some \<lparr>path = path_relative ws x, content = utf8_decode (bytes ino),
            size' = length (bytes ino)\<rparr>"
  using assms
  by (auto simp: backupFile_def readFile_def stat_size_def inode_at_def
      split: option.splits node.splits)

lemma backupFile_sound:
  assumes "backupFile ws w x = Some f"
  shows "\<exists>i ino. inode_at (root w) x = Some i \<and> map_of (inodes w) i = Some ino
           \<and> readable ino \<and> path f = path_relative ws x
           \<and> content f = utf8_decode (bytes ino) \<and> size' f = length (bytes ino)"
  using assms
  by (auto simp: backupFile_def readFile_def stat_size_def inode_at_def
      split: option.splits node.splits sum.splits if_splits)

lemma backup_complete:
  assumes all: "getAllWorkspaceFiles ws w = Inr allFiles"
    and n: "node_at (root w) ws = Some n"
    and p: "p \<noteq> []" "lookup n p = Some (File i)"
    and ino: "map_of (inodes w) i = Some ino" "readable ino"
    and ign: "\<not> backup_ignored (join_path p)"
  shows "\<lparr>path = join_path p, content = utf8_decode (bytes ino), size' = length (bytes ino)\<rparr>
           \<in> set (List.map_filter (backupFile ws w) allFiles)"
proof -
  from all n have walk: "walkDir ws ws n = Inr allFiles"
    by (auto simp: getAllWorkspaceFiles_def split: option.splits)
  have "\<forall>q. q \<noteq> [] \<and> prefix q p \<longrightarrow> \<not> backup_ignored (path_relative ws (ws @ q))"
    using ign by (auto dest: backup_ignored_prefix)
  from walkDir_complete [OF walk p this] have "ws @ p \<in> set allFiles" .
  moreover from inode_at_below [OF n p(2,1)] ino have "backupFile ws w (ws @ p)
      = Some \<lparr>path = join_path p, content = utf8_decode (bytes ino), size' = length (bytes ino)\<rparr>"
    by (simp add: backupFile_complete)
  ultimately show ?thesis
    by (auto simp: set_map_filter)
qed

lemma backup_sound:
  assumes all: "getAllWorkspaceFiles ws w = Inr allFiles"
    and f: "f \<in> set (List.map_filter (backupFile ws w) allFiles)"
  shows "\<exists>n p j i ino. node_at (root w) ws = Some n \<and> p \<noteq> [] \<and> path f = join_path p
             \<and> \<not> backup_ignored (path f) \<and> entry_at n p (File j)
             \<and> inode_at (root w) (ws @ p) = Some i \<and> map_of (inodes w) i = Some ino
             \<and> readable ino
             \<and> content f = utf8_decode (bytes ino) \<and> size' f = length (bytes ino)"
proof -
  from all obtain n where n: "node_at (root w) ws = Some n"
    and walk: "walkDir ws ws n = Inr allFiles"
    by (auto simp: getAllWorkspaceFiles_def split: option.splits)
  from f obtain x where x: "x \<in> set allFiles" and b: "backupFile ws w x = Some f"
    by (auto simp: set_map_filter)
  from walk_sound(1) [OF walk x] obtain p j where xp: "p \<noteq> []" "x = ws @ p"
    and e: "entry_at n p (File j)"
    by blast
  from walk_not_ignored(1) [OF walk x]
  have ni: "\<not> backup_ignored (path_relative ws x)" .
  from backupFile_sound [OF b] obtain i ino where
    "inode_at (root w) x = Some i" "map_of (inodes w) i = Some ino" "readable ino"
    "path f = path_relative ws x" "content f = utf8_decode (bytes ino)"
    "size' f = length (bytes ino)"
    by blast
  with xp ni n e show ?thesis
    by (intro exI [of _ n] exI [of _ p] exI [of _ j] exI [of _ i] exI [of _ ino]) simp
qed

lemma createBackupBeforeRestore_result:
  assumes "createBackupBeforeRestore env ws w = Inr (bid, w1)"
  shows "\<exists>allFiles. getAllWorkspaceFiles ws w = Inr allFiles
           \<and> bid = ''backup_'' @ generateSnapshotId env
           \<and> w1 = w\<lparr>store := AList.update (bid @ ''.json'')
                               (Serialized
                                  \<lparr>stored_id = bid,
                                   stored_timestamp = iso_string (clock2 env),
                                   stored_trigger = manual,
                                   stored_files = List.map_filter (backupFile ws w) allFiles,
                                   stored_gitCommit = None\<rparr>)
                               (store w),
                    trace := trace w @ [StoreWrite (bid @ ''.json'')]\<rparr>"
  using assms
  by (auto simp: createBackupBeforeRestore_def saveSnapshot_def toISOString_def
      store_writeFile_def JSON_stringify_def Let_def split: sum.splits if_splits)

text \<open>
  C1 (amended): a restore of an existing snapshot either fails with the state untouched,
  because the backup could not be made or stored, or it stores exactly one snapshot,
  under a \<^verbatim>\<open>backup_\<close> identifier and with trigger manual, before any directory is made
  or file written in the workspace. The backup holds every regular file that is reached
  from the workspace root through directories, whose relative path live capture does not
  ignore, and which can be read: its relative path, its bytes decoded as UTF-8 and its
  size in bytes. Every capture of the backup is such a reading of a file that can be
  read, at a path that names a regular file below the workspace root, through
  directories, and that contains none of
  \<^verbatim>\<open>node_modules\<close>, \<^verbatim>\<open>.git\<close>, \<^verbatim>\<open>dist\<close>, \<^verbatim>\<open>build\<close>, \<^verbatim>\<open>out\<close>,
  \<^verbatim>\<open>.vscode\<close> and \<^verbatim>\<open>.hindsight\<close>.
\<close>

theorem restore_backup_first:
  assumes "loadSnapshot snapshotId w = Inr (Some snapshot)"
    and "restoreSnapshot env ws snapshotId w = (r, w')"
  shows "(\<exists>e. createBackupBeforeRestore env ws w = Inl e \<and> \<not> success r \<and> w' = w)
     \<or> (\<exists>stored evs.
           trace w' = trace w @ StoreWrite (''backup_'' @ generateSnapshotId env @ ''.json'') # evs
         \<and> (\<forall>e \<in> set evs. \<exists>p. e = FsMkdir p \<or> e = FsWrite p)
         \<and> store w' = AList.update (''backup_'' @ generateSnapshotId env @ ''.json'')
                          (Serialized stored) (store w)
         \<and> stored_id stored = ''backup_'' @ generateSnapshotId env
         \<and> stored_trigger stored = manual
         \<and> stored_timestamp stored = iso_string (clock2 env)
         \<and> (\<forall>n p i ino. node_at (root w) ws = Some n \<and> p \<noteq> []
                    \<and> lookup n p = Some (File i) \<and> map_of (inodes w) i = Some ino
                    \<and> readable ino \<and> \<not> shouldIgnoreFile (join_path p)
                \<longrightarrow> \<lparr>path = join_path p, content = utf8_decode (bytes ino),
                      size' = length (bytes ino)\<rparr>
                      \<in> set (stored_files stored))
         \<and> (\<forall>f \<in> set (stored_files stored).
                \<exists>n p j i ino. node_at (root w) ws = Some n \<and> p \<noteq> []
                    \<and> path f = join_path p \<and> \<not> backup_ignored (path f)
                    \<and> entry_at n p (File j)
                    \<and> inode_at (root w) (ws @ p) = Some i
                    \<and> map_of (inodes w) i = Some ino \<and> readable ino
                    \<and> content f = utf8_decode (bytes ino)
                    \<and> size' f = length (bytes ino))
         \<and> (success r \<longrightarrow> backupId r = Some (''backup_'' @ generateSnapshotId env)))"
proof (cases "createBackupBeforeRestore env ws w")
  case (Inl e)
  with assms show ?thesis
    by (auto simp: restoreSnapshot_def)
next
  case (Inr bw)
  obtain bid w1 where bw: "bw = (bid, w1)" by (cases bw)
  from createBackupBeforeRestore_result [OF Inr [unfolded bw]] obtain allFiles
    where all: "getAllWorkspaceFiles ws w = Inr allFiles"
      and bid: "bid = ''backup_'' @ generateSnapshotId env"
      and w1: "w1 = w\<lparr>store := AList.update (bid @ ''.json'')
                               (Serialized
                                  \<lparr>stored_id = bid,
                                   stored_timestamp = iso_string (clock2 env),
                                   stored_trigger = manual,
                                   stored_files = List.map_filter (backupFile ws w) allFiles,
                                   stored_gitCommit = None\<rparr>)
                               (store w),
                    trace := trace w @ [StoreWrite (bid @ ''.json'')]\<rparr>"
    by blast
  define stored where "stored =
     \<lparr>stored_id = bid, stored_timestamp = iso_string (clock2 env), stored_trigger = manual,
      stored_files = List.map_filter (backupFile ws w) allFiles, stored_gitCommit = None\<rparr>"
  obtain r2 w2 where rf: "restoreFiles ws (files snapshot) w1 = (r2, w2)"
    by (cases "restoreFiles ws (files snapshot) w1")
  from assms Inr bw rf have w': "w' = w2" and r: "success r \<longrightarrow> backupId r = Some bid"
    by (auto simp: restoreSnapshot_def split: option.splits)
  from restoreFiles_effect [OF rf extends_refl [of "{}"]] obtain evs
    where st: "store w2 = store w1" and tr: "trace w2 = trace w1 @ evs"
      and evs: "set evs \<subseteq> (\<lambda>f. FsMkdir (dirname (path_join ws (path f)))) ` set (files snapshot)
                        \<union> (\<lambda>f. FsWrite (path_join ws (path f))) ` set (files snapshot)"
    by auto
  have 1: "trace w' = trace w @ StoreWrite (''backup_'' @ generateSnapshotId env @ ''.json'') # evs"
    using tr w' w1 bid by simp
  have 2: "\<forall>e \<in> set evs. \<exists>p. e = FsMkdir p \<or> e = FsWrite p"
    using evs by auto
  have 3: "store w' = AList.update (''backup_'' @ generateSnapshotId env @ ''.json'')
                          (Serialized stored) (store w)"
    using st w' w1 bid by (simp add: stored_def)
  have 4: "\<forall>n p i ino. node_at (root w) ws = Some n \<and> p \<noteq> []
                    \<and> lookup n p = Some (File i) \<and> map_of (inodes w) i = Some ino
                    \<and> readable ino \<and> \<not> shouldIgnoreFile (join_path p)
                \<longrightarrow> \<lparr>path = join_path p, content = utf8_decode (bytes ino),
                      size' = length (bytes ino)\<rparr>
                      \<in> set (stored_files stored)"
  proof (intro allI impI)
    fix n p i ino
    assume a: "node_at (root w) ws = Some n \<and> p \<noteq> []
                    \<and> lookup n p = Some (File i) \<and> map_of (inodes w) i = Some ino
                    \<and> readable ino \<and> \<not> shouldIgnoreFile (join_path p)"
    then have "\<not> backup_ignored (join_path p)"
      using backup_ignored_shouldIgnoreFile by blast
    with a backup_complete [OF all, of n p i ino]
    show "\<lparr>path = join_path p, content = utf8_decode (bytes ino),
           size' = length (bytes ino)\<rparr> \<in> set (stored_files stored)"
      by (simp add: stored_def)
  qed
  have 5: "\<forall>f \<in> set (stored_files stored).
                \<exists>n p j i ino. node_at (root w) ws = Some n \<and> p \<noteq> []
                    \<and> path f = join_path p \<and> \<not> backup_ignored (path f)
                    \<and> entry_at n p (File j)
                    \<and> inode_at (root w) (ws @ p) = Some i
                    \<and> map_of (inodes w) i = Some ino \<and> readable ino
                    \<and> content f = utf8_decode (bytes ino)
                    \<and> size' f = length (bytes ino)"
    using backup_sound [OF all] by (simp add: stored_def)
  have 6: "stored_id stored = ''backup_'' @ generateSnapshotId env"
    "stored_trigger stored = manual" "stored_timestamp stored = iso_string (clock2 env)"
    using bid by (simp_all add: stored_def)
  from 1 2 3 4 5 6 r bid show ?thesis
    by blast
qed

theorem restore_backup_first_witness:
  "loadSnapshot ''snapshot_20231021_100000_abcdef'' ex_world = Inr (Some ex_snapshot)
   \<and> success (fst (restoreSnapshot ex_env ex_ws ''snapshot_20231021_100000_abcdef'' ex_world))
   \<and> (\<exists>stored evs.
         trace (snd (restoreSnapshot ex_env ex_ws ''snapshot_20231021_100000_abcdef'' ex_world))
           = trace ex_world
               @ StoreWrite (''backup_'' @ generateSnapshotId ex_env @ ''.json'') # evs
       \<and> (\<forall>e \<in> set evs. \<exists>p. e = FsMkdir p \<or> e = FsWrite p)
       \<and> store (snd (restoreSnapshot ex_env ex_ws ''snapshot_20231021_100000_abcdef'' ex_world))
           = AList.update (''backup_'' @ generateSnapshotId ex_env @ ''.json'')
               (Serialized stored) (store ex_world)
       \<and> stored_trigger stored = manual
       \<and> \<lparr>path = ''notes.md'', content = ''keep'', size' = 4\<rparr> \<in> set (stored_files stored)
       \<and> (\<forall>f \<in> set (stored_files stored). \<not> backup_ignored (path f)))"
proof -
  have h1: "loadSnapshot ''snapshot_20231021_100000_abcdef'' ex_world = Inr (Some ex_snapshot)"
    by code_simp
  have h2: "restoreSnapshot ex_env ex_ws ''snapshot_20231021_100000_abcdef'' ex_world
      = (fst (restoreSnapshot ex_env ex_ws ''snapshot_20231021_100000_abcdef'' ex_world),
         snd (restoreSnapshot ex_env ex_ws ''snapshot_20231021_100000_abcdef'' ex_world))"
    by simp
  have ok: "success (fst (restoreSnapshot ex_env ex_ws ''snapshot_20231021_100000_abcdef'' ex_world))"
    by code_simp
  have f: "node_at (root ex_world) ex_ws
        = Some (Dir True True
                 [(''a.txt'', File 1), (''notes.md'', File 2),
                  (''src'', Dir True True [(''b.ts'', File 3)]),
                  (''node_modules'', Dir True True [(''m.js'', File 4)])])"
    "[''notes.md''] \<noteq> []"
    "lookup (Dir True True
                 [(''a.txt'', File 1), (''notes.md'', File 2),
                  (''src'', Dir True True [(''b.ts'', File 3)]),
                  (''node_modules'', Dir True True [(''m.js'', File 4)])]) [''notes.md'']
       = Some (File 2)"
    "map_of (inodes ex_world) 2 = Some \<lparr>readable = True, writable = True, bytes = ''keep''\<rparr>"
    "readable \<lparr>readable = True, writable = True, bytes = ''keep''\<rparr>"
    "\<not> shouldIgnoreFile (join_path [''notes.md''])"
    by code_simp+
  have g: "\<lparr>path = join_path [''notes.md''],
            content = utf8_decode (bytes \<lparr>readable = True, writable = True, bytes = ''keep''\<rparr>),
            size' = length (bytes \<lparr>readable = True, writable = True, bytes = ''keep''\<rparr>)\<rparr>
      = \<lparr>path = ''notes.md'', content = ''keep'', size' = 4\<rparr>"
    by code_simp
  from restore_backup_first [OF h1 h2] ok obtain stored evs where s:
    "trace (snd (restoreSnapshot ex_env ex_ws ''snapshot_20231021_100000_abcdef'' ex_world))
       = trace ex_world @ StoreWrite (''backup_'' @ generateSnapshotId ex_env @ ''.json'') # evs"
    "\<forall>e \<in> set evs. \<exists>p. e = FsMkdir p \<or> e = FsWrite p"
    "store (snd (restoreSnapshot ex_env ex_ws ''snapshot_20231021_100000_abcdef'' ex_world))
       = AList.update (''backup_'' @ generateSnapshotId ex_env @ ''.json'')
           (Serialized stored) (store ex_world)"
    "stored_trigger stored = manual"
    and c: "\<forall>n p i ino. node_at (root ex_world) ex_ws = Some n \<and> p \<noteq> []
                    \<and> lookup n p = Some (File i) \<and> map_of (inodes ex_world) i = Some ino
                    \<and> readable ino \<and> \<not> shouldIgnoreFile (join_path p)
                \<longrightarrow> \<lparr>path = join_path p, content = utf8_decode (bytes ino),
                      size' = length (bytes ino)\<rparr>
                      \<in> set (stored_files stored)"
    and d: "\<forall>f \<in> set (stored_files stored).
                \<exists>n p j i ino. node_at (root ex_world) ex_ws = Some n \<and> p \<noteq> []
                    \<and> path f = join_path p \<and> \<not> backup_ignored (path f)
                    \<and> entry_at n p (File j)
                    \<and> inode_at (root ex_world) (ex_ws @ p) = Some i
                    \<and> map_of (inodes ex_world) i = Some ino \<and> readable ino
                    \<and> content f = utf8_decode (bytes ino)
                    \<and> size' f = length (bytes ino)"
    by blast
  from c f have "\<lparr>path = join_path [''notes.md''],
            content = utf8_decode (bytes \<lparr>readable = True, writable = True, bytes = ''keep''\<rparr>),
            size' = length (bytes \<lparr>readable = True, writable = True, bytes = ''keep''\<rparr>)\<rparr>
        \<in> set (stored_files stored)"
    by blast
  then have "\<lparr>path = ''notes.md'', content = ''keep'', size' = 4\<rparr> \<in> set (stored_files stored)"
    by (simp only: g)
  moreover from d have "\<forall>f \<in> set (stored_files stored). \<not> backup_ignored (path f)"
    by blast
  ultimately show ?thesis
    using h1 ok s by blast
qed

text \<open>
  C1 as the specification words it does not hold: the backup does not capture every
  tracked file. In the example workspace \<^verbatim>\<open>src/b.ts\<close> is not ignored by live capture
  but cannot be read; the restore succeeds, the backup holds \<^verbatim>\<open>a.txt\<close> and
  \<^verbatim>\<open>notes.md\<close> only, and the bytes of \<^verbatim>\<open>src/b.ts\<close> are overwritten.
\<close>

theorem backup_skips_unreadable_file:
  "fst (restoreSnapshot ex_env ex_ws ''snapshot_20231021_100000_abcdef'' ex_world)
     = \<lparr>success = True, backupId = Some ''backup_snapshot_20231022_100000_123456'', error = None\<rparr>
   \<and> inode_at (root ex_world) (ex_ws @ [''src'', ''b.ts'']) = Some 3
   \<and> map_of (inodes ex_world) 3
       = Some \<lparr>readable = False, writable = True, bytes = ''secret''\<rparr>
   \<and> \<not> shouldIgnoreFile (join_path [''src'', ''b.ts''])
   \<and> map_of (store (snd (restoreSnapshot ex_env ex_ws ''snapshot_20231021_100000_abcdef'' ex_world)))
        ''backup_snapshot_20231022_100000_123456.json''
       = Some (Serialized
                 \<lparr>stored_id = ''backup_snapshot_20231022_100000_123456'',
                  stored_timestamp = ''2023-10-22T10:00:00.001Z'',
                  stored_trigger = manual,
                  stored_files = [\<lparr>path = ''a.txt'', content = ''new a'', size' = 5\<rparr>,
                                  \<lparr>path = ''notes.md'', content = ''keep'', size' = 4\<rparr>],
                  stored_gitCommit = None\<rparr>)
   \<and> inode_at
        (root (snd (restoreSnapshot ex_env ex_ws ''snapshot_20231021_100000_abcdef'' ex_world)))
        (ex_ws @ [''src'', ''b.ts''])
       = Some 3
   \<and> map_of
        (inodes (snd (restoreSnapshot ex_env ex_ws ''snapshot_20231021_100000_abcdef'' ex_world)))
        3
       = Some \<lparr>readable = False, writable = True, bytes = ''old b''\<rparr>
   \<and> trace (snd (restoreSnapshot ex_env ex_ws ''snapshot_20231021_100000_abcdef'' ex_world))
       = [StoreWrite ''backup_snapshot_20231022_100000_123456.json'',
          FsWrite [''home'', ''ws'', ''a.txt''],
          FsWrite [''home'', ''ws'', ''src'', ''b.ts''],
          FsMkdir [''home'', ''ws'', ''lib''],
          FsWrite [''home'', ''ws'', ''lib'', ''c.ts'']]"
  by code_simp


section \<open>Save and load\<close>

subsection \<open>The calendar\<close>

lemma last_year_of_cycle:
  fixes r2 :: int
  assumes "0 \<le> r2" "r2 \<le> 1460" and yq: "yq = min 3 (r2 div 365)"
  shows "0 \<le> yq" "yq \<le> 3" "0 \<le> r2 - 365 * yq" "r2 - 365 * yq \<le> 365"
proof -
  have k: "0 \<le> r2 div 365" "r2 div 365 \<le> 4"
    using assms(1,2) by linarith+
  show "0 \<le> yq" "yq \<le> 3"
    using k yq by simp_all
  show "0 \<le> r2 - 365 * yq" "r2 - 365 * yq \<le> 365"
  proof -
    consider "r2 div 365 \<le> 3" | "r2 div 365 = 4"
      using k by linarith
    then have "0 \<le> r2 - 365 * yq \<and> r2 - 365 * yq \<le> 365"
    proof cases
      case 1
      then have "yq = r2 div 365" using yq by simp
      then show ?thesis by linarith
    next
      case 2
      then have "yq = 3" using yq by simp
      moreover from 2 have "1460 \<le> r2" by linarith
      ultimately show ?thesis using assms(2) by linarith
    qed
    then show "0 \<le> r2 - 365 * yq" "r2 - 365 * yq \<le> 365" by simp_all
  qed
qed

lemma year_of_era_props:
  assumes doe: "0 \<le> doe" "doe \<le> 146096" and r: "year_of_era doe = (yoe, doy)"
  shows "0 \<le> yoe" "yoe \<le> 399" "0 \<le> doy" "doy \<le> 365"
    "yoe * 365 + yoe div 4 - yoe div 100 + doy = doe"
proof -
  define c where "c = min 3 (doe div 36524)"
  define r1 where "r1 = doe - 36524 * c"
  define q where "q = r1 div 1461"
  define r2 where "r2 = r1 mod 1461"
  define yq where "yq = min 3 (r2 div 365)"
  have "year_of_era doe = (100 * c + 4 * q + yq, r2 - 365 * yq)"
    unfolding year_of_era_def Let_def yq_def r2_def q_def r1_def c_def ..
  with r have yoe: "yoe = 100 * c + 4 * q + yq" and doy: "doy = r2 - 365 * yq"
    by simp_all
  have c: "0 \<le> c" "c \<le> 3"
    using doe(1) by (simp_all add: c_def)
  have r1: "0 \<le> r1" "r1 \<le> 36524"
    using doe c_def r1_def by linarith+
  have q: "0 \<le> q" "q \<le> 24"
    using r1 q_def by linarith+
  have r2: "r1 = 1461 * q + r2" "0 \<le> r2" "r2 \<le> 1460"
    by (simp_all add: q_def r2_def)
  note y = last_year_of_cycle [OF r2(2,3) yq_def]
  show "0 \<le> yoe" "yoe \<le> 399"
    using c q y(1,2) yoe by simp_all
  show "0 \<le> doy" "doy \<le> 365"
    using y(3,4) doy by simp_all
  have "yoe div 4 = 25 * c + q" "yoe div 100 = c"
    using c q y(1,2) yoe by linarith+
  then show "yoe * 365 + yoe div 4 - yoe div 100 + doy = doe"
    using yoe doy r2(1) r1_def by simp
qed

lemma month_of_year_props:
  assumes doy: "0 \<le> doy" "doy \<le> 365" and r: "month_of_year doy = (m, dd)"
  shows "1 \<le> m" "m \<le> 12" "1 \<le> dd" "dd \<le> 31"
    "(153 * (if m > 2 then m - 3 else m + 9) + 2) div 5 + dd - 1 = doy"
proof -
  define mp where "mp = (5 * doy + 2) div 153"
  have "month_of_year doy = (if mp < 10 then mp + 3 else mp - 9, doy - (153 * mp + 2) div 5 + 1)"
    unfolding month_of_year_def Let_def mp_def ..
  with r have m: "m = (if mp < 10 then mp + 3 else mp - 9)"
    and dd: "dd = doy - (153 * mp + 2) div 5 + 1"
    by simp_all
  have mp: "0 \<le> mp" "mp \<le> 11"
    using doy mp_def by linarith+
  show "1 \<le> m" "m \<le> 12"
    using mp m by (simp_all split: if_splits)
  show "1 \<le> dd" "dd \<le> 31"
    using doy dd mp_def by linarith+
  have "(if m > 2 then m - 3 else m + 9) = mp"
    using mp m by (simp split: if_splits)
  then show "(153 * (if m > 2 then m - 3 else m + 9) + 2) div 5 + dd - 1 = doy"
    using dd by simp
qed

lemma days_from_civil_inverse:
  assumes "civil_from_days z = (y, m, d)"
  shows "days_from_civil y m d = z" "1 \<le> m" "m \<le> 12" "1 \<le> d" "d \<le> 31"
    "y \<le> 400 * ((z + 719468) div 146097) + 400" "400 * ((z + 719468) div 146097) \<le> y"
proof -
  define era where "era = (z + 719468) div 146097"
  define doe where "doe = (z + 719468) mod 146097"
  obtain yoe doy where yd: "year_of_era doe = (yoe, doy)"
    by (cases "year_of_era doe")
  have doe: "0 \<le> doe" "doe \<le> 146096"
    by (simp_all add: doe_def)
  note yp = year_of_era_props [OF doe yd]
  obtain m' dd where md: "month_of_year doy = (m', dd)"
    by (cases "month_of_year doy")
  note mp = month_of_year_props [OF yp(3,4) md]
  have "civil_from_days z =
      (case year_of_era doe of
         (yoe, doy) \<Rightarrow>
           (case month_of_year doy of
              (m, dd) \<Rightarrow> (yoe + era * 400 + (if m \<le> 2 then 1 else 0), m, dd)))"
    unfolding civil_from_days_def Let_def era_def doe_def ..
  then have "civil_from_days z = (yoe + era * 400 + (if m' \<le> 2 then 1 else 0), m', dd)"
    by (simp add: yd md)
  with assms have y: "y = yoe + era * 400 + (if m \<le> 2 then 1 else 0)" and m: "m' = m" and d: "dd = d"
    by auto
  show "1 \<le> m" "m \<le> 12" "1 \<le> d" "d \<le> 31"
    using mp(1-4) m d by simp_all
  show "y \<le> 400 * ((z + 719468) div 146097) + 400" "400 * ((z + 719468) div 146097) \<le> y"
    using y yp(1,2) by (simp_all add: era_def split: if_splits)
  have y': "(if m \<le> 2 then y - 1 else y) = era * 400 + yoe"
    using y by simp
  have e: "(era * 400 + yoe) div 400 = era" "(era * 400 + yoe) mod 400 = yoe"
    using yp(1,2) by simp_all
  have z: "z = era * 146097 + doe - 719468"
    unfolding era_def doe_def by simp
  have mm: "(153 * (if m > 2 then m - 3 else m + 9) + 2) div 5 + d - 1 = doy"
    using mp(5) unfolding m d .
  have "days_from_civil y m d = era * 146097 + doe - 719468"
    unfolding days_from_civil_def Let_def y' e mm yp(5) ..
  then show "days_from_civil y m d = z"
    using z by simp
qed


subsection \<open>Digits\<close>

lemma digit_val_nth: "\<forall>k<10. digit_val (''0123456789'' ! k) = Some k"
  by (simp add: eval_nat_numeral All_less_Suc digit_val_def)

lemma digit_val_digit_char: "digit_val (digit_char n) = Some (n mod 10)"
  using digit_val_nth by (simp add: digit_char_def)

lemma digit_not_sign:
  "\<forall>k<10. ''0123456789'' ! k \<noteq> CHR ''+'' \<and> ''0123456789'' ! k \<noteq> CHR ''-''"
  by (simp add: eval_nat_numeral All_less_Suc)

lemma digit_char_not_sign: "digit_char n \<noteq> CHR ''+''" "digit_char n \<noteq> CHR ''-''"
  using digit_not_sign by (simp_all add: digit_char_def)

lemma length_pad [simp]: "length (pad w n) = w"
  by (induction w arbitrary: n) simp_all

lemma pad_Suc_hd: "pad (Suc w) n = digit_char (n div 10 ^ w) # pad w n"
proof (induction w arbitrary: n)
  case 0
  then show ?case by simp
next
  case (Suc w)
  have "pad (Suc (Suc w)) n = pad (Suc w) (n div 10) @ [digit_char n]" by simp
  also have "\<dots> = (digit_char (n div 10 div 10 ^ w) # pad w (n div 10)) @ [digit_char n]"
    by (simp only: Suc)
  also have "\<dots> = digit_char (n div 10 ^ Suc w) # pad (Suc w) n"
    by (simp add: div_mult2_eq)
  finally show ?case .
qed

lemma pad2: "pad 2 n = [digit_char (n div 10), digit_char n]"
  by (simp add: numeral_2_eq_2)

lemma pad3: "pad 3 n = [digit_char (n div 10 div 10), digit_char (n div 10), digit_char n]"
  by (simp add: numeral_3_eq_3)

lemma parse_digits_append:
  "parse_digits acc (xs @ ys) =
     (case parse_digits acc xs of None \<Rightarrow> None | Some a \<Rightarrow> parse_digits a ys)"
  by (induction xs arbitrary: acc) (auto split: option.splits)

lemma parse_digits_pad: "parse_digits acc (pad w n) = Some (acc * 10 ^ w + n mod 10 ^ w)"
proof (induction w arbitrary: n)
  case 0
  then show ?case by simp
next
  case (Suc w)
  have "n mod (10 * 10 ^ w) = 10 * (n div 10 mod 10 ^ w) + n mod 10"
    by (simp add: mod_mult2_eq)
  then show ?case
    by (simp add: parse_digits_append Suc digit_val_digit_char algebra_simps)
qed

lemma parse_pad: "n < 10 ^ w \<Longrightarrow> parse_digits 0 (pad w n) = Some n"
  by (simp add: parse_digits_pad)

subsection \<open>The date-time string\<close>

lemma slice_year: "length yr = w \<Longrightarrow> slice (yr @ rest) 0 w = yr"
  by (simp add: slice_def)

lemma slice_rest: "length yr = w \<Longrightarrow> slice (yr @ rest) (w + i) (w + j) = slice rest i j"
  by (simp add: slice_def)

lemma slice_rest0: "length yr = w \<Longrightarrow> slice (yr @ rest) w (w + j) = slice rest 0 j"
  by (simp add: slice_def)

text \<open>Reading back a string of the written form gives the fields that were written.\<close>

lemma parse_iso_written:
  assumes yr: "length yr = w" "parse_digits 0 yr = Some y"
    and f: "mo < 100" "d < 100" "h < 100" "mi < 100" "sec < 100" "ms < 1000"
  shows "parse_iso sg w
           (yr @ ''-'' @ pad 2 mo @ ''-'' @ pad 2 d @ ''T'' @ pad 2 h @ '':'' @ pad 2 mi @ '':''
              @ pad 2 sec @ ''.'' @ pad 3 ms @ ''Z'')
         = (if 1 \<le> mo \<and> mo \<le> 12 \<and> 1 \<le> d \<and> d \<le> 31 \<and> h \<le> 23 \<and> mi \<le> 59 \<and> sec \<le> 59
               \<and> \<not> (sg < 0 \<and> y = 0)
            then TimeClip (days_from_civil (sg * int y) (int mo) (int d) * msPerDay
                            + int h * 3600000 + int mi * 60000 + int sec * 1000 + int ms)
            else InvalidDate)"
proof -
  define rest where "rest = ''-'' @ pad 2 mo @ ''-'' @ pad 2 d @ ''T'' @ pad 2 h @ '':''
      @ pad 2 mi @ '':'' @ pad 2 sec @ ''.'' @ pad 3 ms @ ''Z''"
  have rest: "rest =
     [CHR ''-'', digit_char (mo div 10), digit_char mo,
      CHR ''-'', digit_char (d div 10), digit_char d,
      CHR ''T'', digit_char (h div 10), digit_char h,
      CHR '':'', digit_char (mi div 10), digit_char mi,
      CHR '':'', digit_char (sec div 10), digit_char sec,
      CHR ''.'', digit_char (ms div 10 div 10), digit_char (ms div 10), digit_char ms,
      CHR ''Z'']"
    by (simp add: rest_def pad2 pad3)
  have len: "length (yr @ rest) = w + 20"
    by (simp add: rest yr(1))
  have sep: "slice rest 0 1 = ''-''" "slice rest 3 4 = ''-''" "slice rest 6 7 = ''T''"
    "slice rest 9 10 = '':''" "slice rest 12 13 = '':''" "slice rest 15 16 = ''.''"
    "slice rest 19 20 = ''Z''"
    by (simp_all add: rest slice_def)
  have fld: "slice rest 1 3 = pad 2 mo" "slice rest 4 6 = pad 2 d" "slice rest 7 9 = pad 2 h"
    "slice rest 10 12 = pad 2 mi" "slice rest 13 15 = pad 2 sec" "slice rest 16 19 = pad 3 ms"
    by (simp_all add: rest slice_def pad2 pad3)
  have p: "parse_digits 0 (pad 2 mo) = Some mo" "parse_digits 0 (pad 2 d) = Some d"
    "parse_digits 0 (pad 2 h) = Some h" "parse_digits 0 (pad 2 mi) = Some mi"
    "parse_digits 0 (pad 2 sec) = Some sec" "parse_digits 0 (pad 3 ms) = Some ms"
    using f by (simp_all add: parse_pad)
  have "parse_iso sg w (yr @ rest)
         = (if 1 \<le> mo \<and> mo \<le> 12 \<and> 1 \<le> d \<and> d \<le> 31 \<and> h \<le> 23 \<and> mi \<le> 59 \<and> sec \<le> 59
               \<and> \<not> (sg < 0 \<and> y = 0)
            then TimeClip (days_from_civil (sg * int y) (int mo) (int d) * msPerDay
                            + int h * 3600000 + int mi * 60000 + int sec * 1000 + int ms)
            else InvalidDate)"
    unfolding parse_iso_def len slice_rest [OF yr(1)] slice_rest0 [OF yr(1)]
      slice_year [OF yr(1)] sep fld p yr(2)
    by simp
  then show ?thesis
    by (simp only: rest_def)
qed

lemma time_of_day_fields:
  fixes tod :: int
  assumes "0 \<le> tod" "tod < 86400000"
  shows "0 \<le> tod div 3600000" "tod div 3600000 \<le> 23"
    "tod div 3600000 * 3600000 + tod div 60000 mod 60 * 60000 + tod div 1000 mod 60 * 1000
       + tod mod 1000 = tod"
proof -
  show "0 \<le> tod div 3600000" "tod div 3600000 \<le> 23"
    using assms by linarith+
  have a: "tod div 60000 = tod div 1000 div 60" "tod div 3600000 = tod div 60000 div 60"
    by (simp_all add: div_mult2_eq [symmetric])
  have "tod = tod div 1000 * 1000 + tod mod 1000" by simp
  moreover have "tod div 1000 = tod div 60000 * 60 + tod div 1000 mod 60"
    unfolding a(1) by simp
  moreover have "tod div 60000 = tod div 3600000 * 60 + tod div 60000 mod 60"
    unfolding a(2) by simp
  ultimately show "tod div 3600000 * 3600000 + tod div 60000 mod 60 * 60000
      + tod div 1000 mod 60 * 1000 + tod mod 1000 = tod"
    by linarith
qed


lemma valid_nat:
  fixes m d a b c :: int
  assumes "1 \<le> m" "m \<le> 12" "1 \<le> d" "d \<le> 31" "0 \<le> a" "a \<le> 23" "b \<le> 59" "c \<le> 59"
  shows "1 \<le> nat m \<and> nat m \<le> 12 \<and> 1 \<le> nat d \<and> nat d \<le> 31 \<and> nat a \<le> 23 \<and> nat b \<le> 59
    \<and> nat c \<le> 59"
  using assms by (intro conjI; linarith)

lemma mod60: "(x :: int) mod 60 \<le> 59"
proof -
  define r where "r = x mod 60"
  have "r < 60" by (simp add: r_def)
  then have "r \<le> 59" by linarith
  then show ?thesis by (simp add: r_def)
qed

lemma newDate_digit:
  "newDate (digit_char k # r) = parse_iso 1 4 (digit_char k # r)"
  by (simp add: newDate_def digit_char_not_sign)

text \<open>A valid time value survives being written and read as a date-time string.\<close>

lemma newDate_iso_string:
  assumes t: "\<bar>t\<bar> \<le> 8640000000000000"
  shows "newDate (iso_string t) = TimeValue t"
proof -
  obtain y m d where c: "civil_from_days (Day t) = (y, m, d)"
    by (cases "civil_from_days (Day t)")
  note inv = days_from_civil_inverse [OF c]
  define tod where "tod = TimeWithinDay t"
  have tod: "0 \<le> tod" "tod < 86400000"
    by (simp_all add: tod_def TimeWithinDay_def msPerDay_def)
  note tf = time_of_day_fields [OF tod]
  have day: "- 100000000 \<le> Day t" "Day t \<le> 100000000"
    using t unfolding Day_def msPerDay_def by linarith+
  have "(Day t + 719468) div 146097 \<le> 100719468 div 146097"
    by (rule zdiv_mono1) (use day in simp_all)
  moreover have "(- 99280532) div 146097 \<le> (Day t + 719468) div 146097"
    by (rule zdiv_mono1) (use day in simp_all)
  ultimately have era: "- 680 \<le> (Day t + 719468) div 146097"
    "(Day t + 719468) div 146097 \<le> 690"
    by simp_all
  have y: "- 999999 \<le> y" "y \<le> 999999"
    using inv(6,7) era by linarith+
  define mo' d' h' mi' sec' ms' where "mo' = nat m" and "d' = nat d"
    and "h' = nat (tod div 3600000)" and "mi' = nat (tod div 60000 mod 60)"
    and "sec' = nat (tod div 1000 mod 60)" and "ms' = nat (tod mod 1000)"
  have small: "mo' < 100" "d' < 100" "h' < 100" "mi' < 100" "sec' < 100" "ms' < 1000"
    using inv(3,5) tf(2) by (simp_all add: mo'_def d'_def h'_def mi'_def sec'_def ms'_def)
  have m60: "tod div 60000 mod 60 \<le> 59" "tod div 1000 mod 60 \<le> 59"
    by (rule mod60)+
  have valid: "1 \<le> mo' \<and> mo' \<le> 12 \<and> 1 \<le> d' \<and> d' \<le> 31 \<and> h' \<le> 23 \<and> mi' \<le> 59 \<and> sec' \<le> 59"
    using valid_nat [OF inv(2-5) tf(1,2) m60]
    unfolding mo'_def d'_def h'_def mi'_def sec'_def .
  have ints: "int mo' = m" "int d' = d"
    using inv(2,4) by (simp_all add: mo'_def d'_def)
  have "int h' = tod div 3600000"
    using tf(1) by (simp add: h'_def)
  moreover have "int mi' = tod div 60000 mod 60" "int sec' = tod div 1000 mod 60"
    "int ms' = tod mod 1000"
    by (simp_all add: mi'_def sec'_def ms'_def)
  ultimately have ints_tod: "int h' * 3600000 + int mi' * 60000 + int sec' * 1000 + int ms' = tod"
    using tf(3) by (simp only:)
  have whole: "days_from_civil y m d * msPerDay + tod = t"
    unfolding inv(1) tod_def Day_def TimeWithinDay_def by simp
  define tail where "tail = ''-'' @ pad 2 mo' @ ''-'' @ pad 2 d' @ ''T'' @ pad 2 h' @ '':''
      @ pad 2 mi' @ '':'' @ pad 2 sec' @ ''.'' @ pad 3 ms' @ ''Z''"
  have iso: "iso_string t =
      (if 0 \<le> y \<and> y \<le> 9999 then pad 4 (nat y)
       else (if y < 0 then ''-'' else ''+'') @ pad 6 (nat \<bar>y\<bar>)) @ tail"
    unfolding iso_string_def Let_def c tod_def [symmetric] tail_def
      mo'_def d'_def h'_def mi'_def sec'_def ms'_def
    by simp
  have read: "parse_iso sg w (yr @ tail)
      = TimeClip (days_from_civil (sg * int n) m d * msPerDay + tod)"
    if "length yr = w" "parse_digits 0 yr = Some n" "\<not> (sg < 0 \<and> n = 0)" for sg w yr n
    using parse_iso_written [OF that(1,2) small, of sg] valid that(3) ints ints_tod
    by (simp add: tail_def add.assoc)
  consider "0 \<le> y \<and> y \<le> 9999" | "y < 0" | "9999 < y" by linarith
  then have "newDate (iso_string t) = TimeClip t"
  proof cases
    case 1
    then have "nat y < 10000" by linarith
    then have "nat y < 10 ^ 4" by simp
    then have p: "parse_digits 0 (pad 4 (nat y)) = Some (nat y)"
      by (rule parse_pad)
    have "pad 4 (nat y) = pad (Suc 3) (nat y)" by simp
    then obtain k r where kr: "pad 4 (nat y) = digit_char k # r"
      by (simp only: pad_Suc_hd)
    have "newDate (pad 4 (nat y) @ tail) = parse_iso 1 4 (pad 4 (nat y) @ tail)"
      unfolding kr by (simp add: newDate_digit)
    also have "\<dots> = TimeClip (days_from_civil (1 * int (nat y)) m d * msPerDay + tod)"
      by (rule read [OF _ p]) simp_all
    finally show ?thesis
      using 1 iso whole by simp
  next
    case 2
    have "nat \<bar>y\<bar> < 1000000" using y by linarith
    then have "nat \<bar>y\<bar> < 10 ^ 6" by simp
    then have p: "parse_digits 0 (pad 6 (nat \<bar>y\<bar>)) = Some (nat \<bar>y\<bar>)"
      by (rule parse_pad)
    have "newDate (''-'' @ pad 6 (nat \<bar>y\<bar>) @ tail) = parse_iso (- 1) 6 (pad 6 (nat \<bar>y\<bar>) @ tail)"
      by (simp add: newDate_def)
    also have "\<dots> = TimeClip (days_from_civil (- 1 * int (nat \<bar>y\<bar>)) m d * msPerDay + tod)"
      by (rule read [OF _ p]) (use 2 in simp_all)
    finally show ?thesis
      using 2 iso whole by simp
  next
    case 3
    have "nat \<bar>y\<bar> < 1000000" using y by linarith
    then have "nat \<bar>y\<bar> < 10 ^ 6" by simp
    then have p: "parse_digits 0 (pad 6 (nat \<bar>y\<bar>)) = Some (nat \<bar>y\<bar>)"
      by (rule parse_pad)
    have "newDate (''+'' @ pad 6 (nat \<bar>y\<bar>) @ tail) = parse_iso 1 6 (pad 6 (nat \<bar>y\<bar>) @ tail)"
      by (simp add: newDate_def)
    also have "\<dots> = TimeClip (days_from_civil (1 * int (nat \<bar>y\<bar>)) m d * msPerDay + tod)"
      by (rule read [OF _ p]) simp_all
    finally show ?thesis
      using 3 iso whole by simp
  qed
  then show ?thesis
    using t by (simp add: TimeClip_def)
qed


subsection \<open>The record on disk\<close>

lemma saveSnapshot_invalid: "timestamp s = InvalidDate \<Longrightarrow> saveSnapshot s w = Inl RangeError"
  by (simp add: saveSnapshot_def toISOString_def)

text \<open>
  C4: a snapshot whose timestamp is an instant (a valid time value) is written to a
  writable store as the record of its identifier, its timestamp as the ISO string, its
  trigger, its files and its optional revision, and loading that identifier afterwards
  gives back the snapshot itself: every field is equal, and the timestamp read from the
  string is the same instant, to the millisecond.
\<close>

theorem save_load_roundtrip:
  assumes "timestamp s = TimeValue t" and "\<bar>t\<bar> \<le> 8640000000000000" and "store_writable w"
  shows "\<exists>w'. saveSnapshot s w = Inr w'
           \<and> map_of (store w') (id' s @ ''.json'')
               = Some (JSON_stringify
                         \<lparr>stored_id = id' s,
                          stored_timestamp = iso_string t,
                          stored_trigger = trigger s,
                          stored_files = files s,
                          stored_gitCommit = gitCommit s\<rparr>)
           \<and> loadSnapshot (id' s) w' = Inr (Some s)"
proof -
  define stored where "stored =
     \<lparr>stored_id = id' s, stored_timestamp = iso_string t, stored_trigger = trigger s,
      stored_files = files s, stored_gitCommit = gitCommit s\<rparr>"
  define w' where "w' = w\<lparr>store := AList.update (id' s @ ''.json'') (JSON_stringify stored) (store w),
                          trace := trace w @ [StoreWrite (id' s @ ''.json'')]\<rparr>"
  have save: "saveSnapshot s w = Inr w'"
    using assms(1,3)
    by (simp add: saveSnapshot_def toISOString_def store_writeFile_def Let_def stored_def w'_def)
  have onDisk: "map_of (store w') (id' s @ ''.json'') = Some (JSON_stringify stored)"
    by (simp add: w'_def update_conv')
  have "loadSnapshot_try (id' s) w'
      = Inr \<lparr>id' = id' s, timestamp = newDate (iso_string t), trigger = trigger s,
             files = files s, gitCommit = gitCommit s\<rparr>"
    using onDisk
    by (simp add: loadSnapshot_try_def store_readFile_def JSON_parse_def JSON_stringify_def
        stored_def)
  also have "newDate (iso_string t) = TimeValue t"
    using assms(2) by (rule newDate_iso_string)
  also have "\<lparr>id' = id' s, timestamp = TimeValue t, trigger = trigger s,
             files = files s, gitCommit = gitCommit s\<rparr> = s"
    using assms(1) by (cases s) simp
  finally have "loadSnapshot (id' s) w' = Inr (Some s)"
    by (simp add: loadSnapshot_def)
  with save onDisk show ?thesis
    by (auto simp: stored_def)
qed

theorem save_load_roundtrip_witness:
  "timestamp ex_snapshot = TimeValue 1697882400000
   \<and> \<bar>1697882400000 :: int\<bar> \<le> 8640000000000000
   \<and> store_writable ex_world
   \<and> (\<exists>w'. saveSnapshot ex_snapshot ex_world = Inr w'
          \<and> map_of (store w') (id' ex_snapshot @ ''.json'')
              = Some (JSON_stringify
                        \<lparr>stored_id = id' ex_snapshot,
                         stored_timestamp = iso_string 1697882400000,
                         stored_trigger = trigger ex_snapshot,
                         stored_files = files ex_snapshot,
                         stored_gitCommit = gitCommit ex_snapshot\<rparr>)
          \<and> loadSnapshot (id' ex_snapshot) w' = Inr (Some ex_snapshot))"
proof -
  have h: "timestamp ex_snapshot = TimeValue 1697882400000"
    "\<bar>1697882400000 :: int\<bar> \<le> 8640000000000000" "store_writable ex_world"
    by (simp_all add: ex_snapshot_def ex_world_def)
  from save_load_roundtrip [OF h] h show ?thesis
    by blast
qed


end
